theory Spec2Isabelle
  imports Main "HOL-Library.Sublist"
begin

section \<open>Strings of the program\<close>

text \<open>
  The program is TypeScript run by Bun. Its strings are modelled as \<^typ>\<open>string\<close>: a
  \<^typ>\<open>char\<close> stands for one code unit below 256 (ASCII and the Latin-1 supplement), which
  covers every literal of the source. The built-in string methods are written out for this
  range as ECMAScript defines them.
\<close>

definition isWhiteSpace :: "char \<Rightarrow> bool" where
  \<comment> \<open>WhiteSpace and LineTerminator code points below 256, the ones \<open>String.prototype.trim\<close> removes\<close>
  "isWhiteSpace c = (c \<in> set [CHR 0x09, CHR 0x0A, CHR 0x0B, CHR 0x0C, CHR 0x0D, CHR 0x20, CHR 0xA0])"

definition trim :: "string \<Rightarrow> string" where
  "trim s = rev (dropWhile isWhiteSpace (rev (dropWhile isWhiteSpace s)))"

definition toLowerCaseChar :: "char \<Rightarrow> char" where
  \<comment> \<open>A-Z, and the capital letters of Latin-1 (0xC0-0xDE without the multiplication sign 0xD7)\<close>
  "toLowerCaseChar c =
     (let n = (of_char c :: nat) in
      if (65 \<le> n \<and> n \<le> 90) \<or> (192 \<le> n \<and> n \<le> 222 \<and> n \<noteq> 215)
      then char_of (n + 32) else c)"

definition toLowerCase :: "string \<Rightarrow> string" where
  "toLowerCase s = map toLowerCaseChar s"

definition startsWith :: "string \<Rightarrow> string \<Rightarrow> bool" where
  \<comment> \<open>\<open>s.startsWith(p)\<close>\<close>
  "startsWith s p = (take (length p) s = p)"

fun split :: "char \<Rightarrow> string \<Rightarrow> string list" where
  \<comment> \<open>\<open>s.split(c)\<close> for a one-character separator: the empty string gives one empty token\<close>
  "split c [] = [[]]"
| "split c (x # xs) =
     (if x = c then [] # split c xs
      else (case split c xs of [] \<Rightarrow> [[x]] | t # ts \<Rightarrow> (x # t) # ts))"

fun joinWith :: "string \<Rightarrow> string list \<Rightarrow> string" where
  \<comment> \<open>\<open>parts.join(sep)\<close>\<close>
  "joinWith s [] = []"
| "joinWith s [x] = x"
| "joinWith s (x # y # ys) = x @ s @ joinWith s (y # ys)"

section \<open>Extension filter\<close>

definition parseExtensionFilter :: "string \<Rightarrow> string list \<Rightarrow> string list" where
  \<comment> \<open>\<open>Menu.parseExtensionFilter\<close>; \<open>filter(Boolean)\<close> keeps the non-empty strings\<close>
  "parseExtensionFilter input defaults =
     (let raw = filter (\<lambda>value. value \<noteq> []) (map (\<lambda>value. trim value) (split CHR '','' input))
      in if length raw = 0 then defaults
         else map (\<lambda>value. if startsWith value ''.'' then toLowerCase value
                            else ''.'' @ toLowerCase value) raw)"

definition filterTokens :: "string \<Rightarrow> string list" where
  \<comment> \<open>The spec's words: split on commas, trim whitespace, drop empty tokens\<close>
  "filterTokens input = filter (\<lambda>t. t \<noteq> []) (map trim (split CHR '','' input))"

definition ensureLeadingDot :: "string \<Rightarrow> string" where
  \<comment> \<open>The spec's words: each token begins with the separator character, inserted if absent\<close>
  "ensureLeadingDot t = (case t of [] \<Rightarrow> ''.'' | c # cs \<Rightarrow> if c = CHR ''.'' then t else CHR ''.'' # t)"

definition parseExtensionFilter_spec :: "string \<Rightarrow> string list \<Rightarrow> string list" where
  \<comment> \<open>Contract 2 of the spec's FormatPolicy, read literally: lower-case, then ensure the dot\<close>
  "parseExtensionFilter_spec input defaults =
     (if filterTokens input = [] then defaults
      else map (\<lambda>t. ensureLeadingDot (toLowerCase t)) (filterTokens input))"

section \<open>Output path naming\<close>

datatype format = Armored | Binary

definition outputExtension :: "format \<Rightarrow> string" where
  \<comment> \<open>\<open>outputFormat === 'armored' ? '.asc' : '.pgp'\<close> in \<open>Menu.encryptFolder\<close>\<close>
  "outputExtension outputFormat = (if outputFormat = Armored then ''.asc'' else ''.pgp'')"

definition regexCanonicalize :: "char \<Rightarrow> char" where
  \<comment> \<open>Canonicalize of a case-insensitive, non-Unicode RegExp: upper-casing, except that a
      character at or above 128 never becomes one below 128. Below 256 only a-z and the
      small letters of Latin-1 change (0xB5 and 0xFF upper-case beyond 255 and also change,
      to characters outside the pattern).\<close>
  "regexCanonicalize c =
     (let n = (of_char c :: nat) in
      if (97 \<le> n \<and> n \<le> 122) \<or> (224 \<le> n \<and> n \<le> 254 \<and> n \<noteq> 247)
      then char_of (n - 32) else c)"

definition matchesEncryptedSuffix :: "string \<Rightarrow> bool" where
  \<comment> \<open>the four characters matched by \<open>\.(pgp|gpg|asc)\<close> under the flag \<open>i\<close>\<close>
  "matchesEncryptedSuffix s =
     (case s of
        [d, x, y, z] \<Rightarrow>
          d = CHR ''.'' \<and> map regexCanonicalize [x, y, z] \<in> set [''PGP'', ''GPG'', ''ASC'']
      | _ \<Rightarrow> False)"

definition replaceEncryptedSuffix :: "string \<Rightarrow> string" where
  \<comment> \<open>\<open>p.replace(/\.(pgp|gpg|asc)$/i, '')\<close>: without the flag \<open>m\<close>, \<open>$\<close> is the end of input,
      so the only possible match is the last four characters\<close>
  "replaceEncryptedSuffix p =
     (if 4 \<le> length p \<and> matchesEncryptedSuffix (drop (length p - 4) p)
      then take (length p - 4) p else p)"

definition stripEncryptedExtension :: "string \<Rightarrow> string" where
  \<comment> \<open>\<open>Menu.stripEncryptedExtension\<close>, used by the folder decryption\<close>
  "stripEncryptedExtension pathValue =
     (let stripped = replaceEncryptedSuffix pathValue
      in if stripped \<noteq> pathValue then stripped else pathValue @ ''.decrypted'')"

definition suggestDecryptedOutputPath :: "string \<Rightarrow> string" where
  \<comment> \<open>\<open>Menu.suggestDecryptedOutputPath\<close>, used by the single-file decryption\<close>
  "suggestDecryptedOutputPath inputPath =
     (let stripped = replaceEncryptedSuffix inputPath
      in if stripped \<noteq> inputPath then stripped else inputPath @ ''.decrypted'')"

definition endsWithEncryptedSuffix :: "string \<Rightarrow> bool" where
  \<comment> \<open>The spec's words: the final segment ends with one of the recognized encrypted-suffix
      tokens, case-insensitive\<close>
  "endsWithEncryptedSuffix p =
     (4 \<le> length p \<and> toLowerCase (drop (length p - 4) p) \<in> set [''.pgp'', ''.gpg'', ''.asc''])"

definition decryptedName_spec :: "string \<Rightarrow> string" where
  \<comment> \<open>The spec's rule of \<open>mapDecrypt\<close> and \<open>suggestSingleOutput\<close>: strip the recognized suffix,
      otherwise append the fallback marker\<close>
  "decryptedName_spec p =
     (if endsWithEncryptedSuffix p then take (length p - 4) p else p @ ''.decrypted'')"

section \<open>Paths\<close>

text \<open>
  The functions of Node's \<open>path\<close> module that the program calls, in their POSIX form
  (\<open>sep\<close> is the slash). \<open>normalizeString\<close> works on the segments between slashes: an empty
  segment and \<open>.\<close> are dropped, \<open>..\<close> removes the segment before it when there is one that
  is not itself \<open>..\<close>, and is kept only above a relative start.
\<close>

definition sep :: string where
  "sep = ''/''"

fun normalizeSegments :: "bool \<Rightarrow> string list \<Rightarrow> string list \<Rightarrow> string list" where
  "normalizeSegments allowAboveRoot res [] = res"
| "normalizeSegments allowAboveRoot res (s # ss) =
     (if s = [] \<or> s = ''.'' then normalizeSegments allowAboveRoot res ss
      else if s = ''..'' then
        (if res \<noteq> [] \<and> last res \<noteq> ''..'' then normalizeSegments allowAboveRoot (butlast res) ss
         else if allowAboveRoot then normalizeSegments allowAboveRoot (res @ [''..'']) ss
         else normalizeSegments allowAboveRoot res ss)
      else normalizeSegments allowAboveRoot (res @ [s]) ss)"

definition normalizeString :: "string \<Rightarrow> bool \<Rightarrow> string" where
  "normalizeString path allowAboveRoot =
     joinWith ''/'' (normalizeSegments allowAboveRoot [] (split CHR ''/'' path))"

fun resolveLoop :: "string list \<Rightarrow> string \<Rightarrow> string \<times> bool" where
  \<comment> \<open>the arguments from right to left, the working directory last\<close>
  "resolveLoop [] resolvedPath = (resolvedPath, False)"
| "resolveLoop (path # rest) resolvedPath =
     (if path = [] then resolveLoop rest resolvedPath
      else if hd path = CHR ''/'' then (path @ ''/'' @ resolvedPath, True)
      else resolveLoop rest (path @ ''/'' @ resolvedPath))"

definition resolve :: "string \<Rightarrow> string list \<Rightarrow> string" where
  \<comment> \<open>\<open>path.resolve(...args)\<close> in a process whose working directory is \<open>cwd\<close>\<close>
  "resolve cwd args =
     (case resolveLoop (rev args @ [cwd]) [] of
        (resolvedPath, resolvedAbsolute) \<Rightarrow>
          (let normalized = normalizeString resolvedPath (\<not> resolvedAbsolute)
           in if resolvedAbsolute then ''/'' @ normalized
              else if normalized \<noteq> [] then normalized else ''.''))"

definition normalizePath :: "string \<Rightarrow> string" where
  \<comment> \<open>\<open>path.normalize\<close>\<close>
  "normalizePath path =
     (if path = [] then ''.''
      else
        (let isAbsolute = (hd path = CHR ''/'');
             trailingSeparator = (last path = CHR ''/'');
             p = normalizeString path (\<not> isAbsolute)
         in if p = [] then (if isAbsolute then ''/'' else if trailingSeparator then ''./'' else ''.'')
            else (let q = (if trailingSeparator then p @ ''/'' else p)
                  in if isAbsolute then ''/'' @ q else q)))"

definition joinPath :: "string list \<Rightarrow> string" where
  \<comment> \<open>\<open>path.join(...args)\<close>: the non-empty arguments joined by slashes, then normalized\<close>
  "joinPath args =
     (let parts = filter (\<lambda>arg. arg \<noteq> []) args
      in if parts = [] then ''.'' else normalizePath (joinWith ''/'' parts))"

definition pathSegments :: "string \<Rightarrow> string list" where
  "pathSegments p = filter (\<lambda>s. s \<noteq> []) (split CHR ''/'' p)"

fun dropCommon :: "string list \<Rightarrow> string list \<Rightarrow> string list \<times> string list" where
  "dropCommon (x # xs) (y # ys) = (if x = y then dropCommon xs ys else (x # xs, y # ys))"
| "dropCommon xs ys = (xs, ys)"

definition relative :: "string \<Rightarrow> string \<Rightarrow> string \<Rightarrow> string" where
  \<comment> \<open>\<open>path.relative(from, to)\<close>: both resolved, the common leading segments dropped, one
      \<open>..\<close> for each segment left of \<open>from\<close>\<close>
  "relative cwd from to =
     (if from = to then []
      else
        (let f = resolve cwd [from]; t = resolve cwd [to]
         in if f = t then []
            else (case dropCommon (pathSegments f) (pathSegments t) of
                    (fromRest, toRest) \<Rightarrow>
                      joinWith ''/'' (replicate (length fromRest) ''..'' @ toRest))))"

fun dirnameScan :: "string \<Rightarrow> nat \<Rightarrow> bool \<Rightarrow> nat option" where
  \<comment> \<open>the loop of \<open>path.dirname\<close>: from the last index down to 1, the first slash after a
      character that is not a slash\<close>
  "dirnameScan path 0 matchedSlash = None"
| "dirnameScan path (Suc i) matchedSlash =
     (if path ! Suc i = CHR ''/'' then
        (if \<not> matchedSlash then Some (Suc i) else dirnameScan path i matchedSlash)
      else dirnameScan path i False)"

definition dirname :: "string \<Rightarrow> string" where
  "dirname path =
     (if path = [] then ''.''
      else
        (let hasRoot = (hd path = CHR ''/'')
         in case dirnameScan path (length path - 1) True of
              None \<Rightarrow> (if hasRoot then ''/'' else ''.'')
            | Some e \<Rightarrow> (if hasRoot \<and> e = 1 then ''//'' else take e path)))"

section \<open>Errors\<close>

datatype js_error = Error string | NonError

definition errorMessage :: "js_error \<Rightarrow> string" where
  \<comment> \<open>\<open>error instanceof Error ? error.message : 'Unknown error'\<close>\<close>
  "errorMessage error = (case error of Error message \<Rightarrow> message | NonError \<Rightarrow> ''Unknown error'')"

section \<open>Directory walk\<close>

text \<open>
  The directory tree the walk reads. \<open>readdir\<close> of a directory gives its entries, in the
  order of the file system; it fails on a directory that cannot be read and on anything that
  is not a directory. An entry that is neither a plain file nor a directory (a symbolic link,
  a socket, a device) is \<open>OtherEntry\<close>.
\<close>

datatype node =
    RegularFile
  | Directory "(string \<times> node) list"
  | UnreadableDirectory js_error
  | OtherEntry

definition readdir :: "node \<Rightarrow> js_error + (string \<times> node) list" where
  "readdir nd =
     (case nd of
        Directory entries \<Rightarrow> Inr entries
      | UnreadableDirectory e \<Rightarrow> Inl e
      | _ \<Rightarrow> Inl (Error ''ENOTDIR: not a directory''))"

definition isDirectory :: "node \<Rightarrow> bool" where
  \<comment> \<open>\<open>entry.isDirectory()\<close>\<close>
  "isDirectory nd = (case nd of Directory _ \<Rightarrow> True | UnreadableDirectory _ \<Rightarrow> True | _ \<Rightarrow> False)"

definition isFile :: "node \<Rightarrow> bool" where
  \<comment> \<open>\<open>entry.isFile()\<close>\<close>
  "isFile nd = (nd = RegularFile)"

definition isExcluded :: "string option \<Rightarrow> string \<Rightarrow> bool" where
  \<comment> \<open>the test of \<open>Menu.listFilesRecursive\<close> that skips an entry\<close>
  "isExcluded normalizedExclude resolvedEntry =
     (case normalizedExclude of
        None \<Rightarrow> False
      | Some ex \<Rightarrow> resolvedEntry = ex \<or> startsWith resolvedEntry (ex @ sep))"

definition normalizeExclude :: "string \<Rightarrow> string option \<Rightarrow> string option" where
  \<comment> \<open>\<open>excludeDir ? resolve(excludeDir) : null\<close>: the empty string is falsy\<close>
  "normalizeExclude cwd excludeDir =
     (case excludeDir of
        None \<Rightarrow> None
      | Some e \<Rightarrow> if e \<noteq> [] then Some (resolve cwd [e]) else None)"

function listFilesRecursive :: "string \<Rightarrow> string \<Rightarrow> string option \<Rightarrow> node \<Rightarrow> js_error + string list"
  and listFilesLoop :: "string \<Rightarrow> string \<Rightarrow> string option \<Rightarrow> (string \<times> node) list \<Rightarrow> string list \<Rightarrow> js_error + string list"
where
  "listFilesRecursive cwd rootDir excludeDir nd =
     (let normalizedExclude = normalizeExclude cwd excludeDir
      in case readdir nd of
           Inl e \<Rightarrow> Inl e
         | Inr entries \<Rightarrow> listFilesLoop cwd rootDir normalizedExclude entries [])"
| "listFilesLoop cwd rootDir normalizedExclude [] files = Inr files"
| "listFilesLoop cwd rootDir normalizedExclude (entry # entries) files =
     (let entryPath = joinPath [rootDir, fst entry];
          resolvedEntry = resolve cwd [entryPath]
      in if isExcluded normalizedExclude resolvedEntry
         then listFilesLoop cwd rootDir normalizedExclude entries files
         else if isDirectory (snd entry) then
           (case listFilesRecursive cwd entryPath normalizedExclude (snd entry) of
              Inl e \<Rightarrow> Inl e
            | Inr sub \<Rightarrow> listFilesLoop cwd rootDir normalizedExclude entries (files @ sub))
         else if isFile (snd entry)
         then listFilesLoop cwd rootDir normalizedExclude entries (files @ [entryPath])
         else listFilesLoop cwd rootDir normalizedExclude entries files)"
  by pat_completeness auto

termination
  by (relation "measure (\<lambda>x. case x of
        Inl (cwd, rootDir, excludeDir, nd) \<Rightarrow> 2 * size nd + 1
      | Inr (cwd, rootDir, ex, entries, files) \<Rightarrow> 2 * size_list (size_prod (\<lambda>x. 0) size) entries)")
    (auto simp: readdir_def split: node.splits)

definition extname :: "string \<Rightarrow> string" where
  \<comment> \<open>\<open>path.extname\<close>: from the last dot of the last segment (trailing slashes aside); empty
      when that segment has no dot, starts with its only dot, or is \<open>..\<close>\<close>
  "extname path =
     (let trimmed = rev (dropWhile (\<lambda>c. c = CHR ''/'') (rev path));
          base = rev (takeWhile (\<lambda>c. c \<noteq> CHR ''/'') (rev trimmed));
          afterDot = rev (takeWhile (\<lambda>c. c \<noteq> CHR ''.'') (rev base))
      in if CHR ''.'' \<notin> set base \<or> length afterDot + 1 = length base \<or> base = ''..'' then []
         else drop (length base - length afterDot - 1) base)"

datatype format_mode = Auto | ForceArmored | ForceBinary

definition resolveInputFormat :: "string \<Rightarrow> format_mode \<Rightarrow> format" where
  \<comment> \<open>\<open>Menu.resolveInputFormat\<close>\<close>
  "resolveInputFormat filePath mode =
     (if mode = ForceArmored then Armored
      else if mode = ForceBinary then Binary
      else
        (let extension = toLowerCase (extname filePath)
         in if extension = ''.asc'' then Armored
            else if extension = ''.pgp'' \<or> extension = ''.gpg'' then Binary
            else Binary))"

section \<open>Writing an artifact to a file\<close>

text \<open>
  What the engine hands to \<open>Menu.writeOutputToFile\<close>: a string, a byte array, a stream, or
  anything else. The chunks of a stream are strings or byte arrays, as the type of the
  parameter says. A stream is known by what a reader of it delivers: the result of the k-th
  \<open>read()\<close>, the error of \<open>getReader\<close> or \<open>pipeThrough\<close> when the stream is locked, and
  whether its reader has a \<open>releaseLock\<close> function.
\<close>

datatype chunk =
    TextChunk string      \<comment> \<open>a string\<close>
  | ByteChunk string      \<comment> \<open>a \<open>Uint8Array\<close>, its bytes\<close>

definition truthy :: "chunk \<Rightarrow> bool" where
  \<comment> \<open>the empty string is falsy; an array is an object, truthy also when it is empty\<close>
  "truthy value = (case value of TextChunk text \<Rightarrow> text \<noteq> [] | ByteChunk bytes \<Rightarrow> True)"

datatype read_result =
    ReadValue chunk       \<comment> \<open>\<open>{value, done: false}\<close>\<close>
  | ReadDone              \<comment> \<open>\<open>{done: true}\<close>\<close>
  | ReadFailed js_error   \<comment> \<open>the promise of \<open>read()\<close> rejects\<close>

record stream =
  reads :: "nat \<Rightarrow> read_result"
  lockedError :: "js_error option"
  hasReleaseLock :: bool

datatype output_data =
    StringData string
  | BytesData string
  | StreamData stream
  | UnsupportedData

datatype call_result =
    Returned                     \<comment> \<open>the call returns a value that is not a promise\<close>
  | Promised "js_error option"   \<comment> \<open>the call returns a promise, resolved or rejected with the error\<close>
  | Threw js_error               \<comment> \<open>the call throws\<close>

text \<open>
  The file system and the engine are outside the program: their operations are the fields
  of an environment over a world \<open>'w\<close>, each giving its outcome and the world it leaves.
  Every call of the environment returns or fails; what may go on for ever is the program's
  own loop over a stream that never ends.
\<close>

record 'w env =
  mkdir :: "string \<Rightarrow> 'w \<Rightarrow> js_error option \<times> 'w"
  exists :: "string \<Rightarrow> 'w \<Rightarrow> bool"
  writeFile :: "string \<Rightarrow> string \<Rightarrow> 'w \<Rightarrow> js_error option \<times> 'w"
  openWriter :: "string \<Rightarrow> 'w \<Rightarrow> js_error option \<times> 'w"
  writerWrite :: "string \<Rightarrow> chunk \<Rightarrow> 'w \<Rightarrow> call_result \<times> 'w"
  writerEnd :: "string \<Rightarrow> 'w \<Rightarrow> call_result \<times> 'w"
  encryptFile :: "string \<Rightarrow> format \<Rightarrow> 'w \<Rightarrow> js_error + output_data"
  decryptFile :: "string \<Rightarrow> format \<Rightarrow> bool \<Rightarrow> 'w \<Rightarrow> js_error + (output_data \<times> bool option)"

text \<open>The calls \<open>writeOutputToFile\<close> makes on its handles, recorded in the order it makes them.\<close>

datatype event =
    EvMkdir string
  | EvWriteFile string
  | EvPipeThrough
  | EvGetReader
  | EvOpenWriter string
  | EvRead
  | EvWrite chunk
  | EvWriteReturned
  | EvWriteAwaited
  | EvReleaseLock
  | EvEnd
  | EvEndAwaited

definition utf8EncodeChar :: "char \<Rightarrow> string" where
  "utf8EncodeChar c =
     (let n = (of_char c :: nat)
      in if n < 128 then [c] else [char_of (192 + n div 64), char_of (128 + n mod 64)])"

definition utf8Encode :: "string \<Rightarrow> string" where
  "utf8Encode s = concat (map utf8EncodeChar s)"

definition byteToString :: "char \<Rightarrow> string" where
  \<comment> \<open>a byte in decimal\<close>
  "byteToString b =
     (let n = (of_char b :: nat)
      in if n < 10 then [char_of (48 + n)]
         else if n < 100 then [char_of (48 + n div 10), char_of (48 + n mod 10)]
         else [char_of (48 + n div 100), char_of (48 + n div 10 mod 10), char_of (48 + n mod 10)])"

definition chunkToString :: "chunk \<Rightarrow> string" where
  \<comment> \<open>the conversion to a string that \<open>TextEncoderStream\<close> applies to a chunk: a string is
      itself, a byte array gives its elements in decimal, joined by commas\<close>
  "chunkToString value =
     (case value of
        TextChunk text \<Rightarrow> text
      | ByteChunk bytes \<Rightarrow> joinWith '','' (map byteToString bytes))"

text \<open>
  The two readers of the function, each from a position in the reads of the source to the
  result of one \<open>read()\<close> and the position after it. The reader of the stream itself
  delivers the next read of the source. Under the format armored the stream is first piped
  through a \<open>TextEncoderStream\<close>: the pipe locks the source and reads it with a reader of
  its own, and the function reads the encoded stream; the encoder turns each chunk of the
  source into the bytes of its text and emits nothing for an empty text, so that one
  \<open>read()\<close> of the function may take several reads of the source, and does not settle when
  the source delivers empty chunks for ever.
\<close>

definition sourceRead :: "(nat \<Rightarrow> read_result) \<Rightarrow> nat \<Rightarrow> (read_result \<times> nat) option" where
  "sourceRead rd i = Some (rd i, Suc i)"

partial_function (option) encodedRead ::
  "(nat \<Rightarrow> read_result) \<Rightarrow> nat \<Rightarrow> (read_result \<times> nat) option"
where
  "encodedRead rd i =
     (case rd i of
        ReadValue value \<Rightarrow>
          if chunkToString value = [] then encodedRead rd (Suc i)
          else Some (ReadValue (ByteChunk (utf8Encode (chunkToString value))), Suc i)
      | ReadDone \<Rightarrow> Some (ReadDone, Suc i)
      | ReadFailed e \<Rightarrow> Some (ReadFailed e, Suc i))"

declare encodedRead.simps [code]

partial_function (option) pumpLoop ::
  "(chunk \<Rightarrow> 'w \<Rightarrow> call_result \<times> 'w) \<Rightarrow> (nat \<Rightarrow> (read_result \<times> nat) option) \<Rightarrow> nat \<Rightarrow> 'w \<Rightarrow>
   event list \<Rightarrow> (js_error option \<times> 'w \<times> event list) option"
where
  \<comment> \<open>the \<open>while (true)\<close> loop: \<open>writeChunk\<close> is \<open>writer.write\<close>, \<open>readAt\<close> is
      \<open>reader.read()\<close>, \<open>i\<close> the position of the reader in the source\<close>
  "pumpLoop writeChunk readAt i w tr =
     (case readAt i of
        None \<Rightarrow> None
      | Some (ReadFailed e, j) \<Rightarrow> Some (Some e, w, tr @ [EvRead])
      | Some (ReadDone, j) \<Rightarrow> Some (None, w, tr @ [EvRead])
      | Some (ReadValue value, j) \<Rightarrow>
          if \<not> truthy value then pumpLoop writeChunk readAt j w (tr @ [EvRead])
          else
            (case writeChunk value w of
               (Threw e, w') \<Rightarrow> Some (Some e, w', tr @ [EvRead, EvWrite value])
             | (Returned, w') \<Rightarrow>
                 pumpLoop writeChunk readAt j w' (tr @ [EvRead, EvWrite value, EvWriteReturned])
             | (Promised (Some e), w') \<Rightarrow>
                 Some (Some e, w', tr @ [EvRead, EvWrite value, EvWriteAwaited])
             | (Promised None, w') \<Rightarrow>
                 pumpLoop writeChunk readAt j w' (tr @ [EvRead, EvWrite value, EvWriteAwaited])))"

declare pumpLoop.simps [code]

definition finallyRelease ::
  "(string \<Rightarrow> 'w \<Rightarrow> call_result \<times> 'w) \<Rightarrow> bool \<Rightarrow> string \<Rightarrow> js_error option \<times> 'w \<times> event list \<Rightarrow>
   js_error option \<times> 'w \<times> event list" where
  \<comment> \<open>the \<open>finally\<close> block: \<open>reader.releaseLock()\<close> when it is a function (it does not
      throw: every read has settled when it is called), then \<open>writer.end()\<close>, whose error
      replaces the outcome of the loop\<close>
  "finallyRelease endWriter releasable outputPath loopResult =
     (case loopResult of
        (r, w, tr) \<Rightarrow>
          (let tr1 = (if releasable then tr @ [EvReleaseLock] else tr)
           in case endWriter outputPath w of
                (Threw e, w') \<Rightarrow> (Some e, w', tr1 @ [EvEnd])
              | (Returned, w') \<Rightarrow> (r, w', tr1 @ [EvEnd])
              | (Promised (Some e), w') \<Rightarrow> (Some e, w', tr1 @ [EvEnd, EvEndAwaited])
              | (Promised None, w') \<Rightarrow> (r, w', tr1 @ [EvEnd, EvEndAwaited])))"

definition writeOutputToFile ::
  "'w env \<Rightarrow> output_data \<Rightarrow> string \<Rightarrow> format \<Rightarrow> 'w \<Rightarrow>
   (js_error option \<times> 'w \<times> event list) option" where
  \<comment> \<open>\<open>Menu.writeOutputToFile\<close>: the error it throws if any, the world it leaves, and the
      calls it made; \<open>None\<close> when the stream never ends. Under armored the reader is the one
      of the encoded stream, which has its \<open>releaseLock\<close>.\<close>
  "writeOutputToFile ops data outputPath fmt w =
     (case data of
        StringData text \<Rightarrow>
          (case mkdir ops (dirname outputPath) w of
             (Some e, w1) \<Rightarrow> Some (Some e, w1, [EvMkdir (dirname outputPath)])
           | (None, w1) \<Rightarrow>
               (case writeFile ops outputPath (utf8Encode text) w1 of
                  (r, w2) \<Rightarrow> Some (r, w2, [EvMkdir (dirname outputPath), EvWriteFile outputPath])))
      | BytesData bytes \<Rightarrow>
          (case mkdir ops (dirname outputPath) w of
             (Some e, w1) \<Rightarrow> Some (Some e, w1, [EvMkdir (dirname outputPath)])
           | (None, w1) \<Rightarrow>
               (case writeFile ops outputPath bytes w1 of
                  (r, w2) \<Rightarrow> Some (r, w2, [EvMkdir (dirname outputPath), EvWriteFile outputPath])))
      | UnsupportedData \<Rightarrow> Some (Some (Error ''Unsupported stream type for file output.''), w, [])
      | StreamData s \<Rightarrow>
          (case lockedError s of
             Some e \<Rightarrow> Some (Some e, w, [])
           | None \<Rightarrow>
               (let readAt = (if fmt = Armored then encodedRead (reads s) else sourceRead (reads s));
                    taken = (if fmt = Armored then [EvPipeThrough, EvGetReader] else [EvGetReader]);
                    releasable = (fmt = Armored \<or> hasReleaseLock s)
                in case openWriter ops outputPath w of
                     (Some e, w1) \<Rightarrow> Some (Some e, w1, taken)
                   | (None, w1) \<Rightarrow>
                       map_option (finallyRelease (writerEnd ops) releasable outputPath)
                         (pumpLoop (writerWrite ops outputPath) readAt 0 w1
                            (taken @ [EvOpenWriter outputPath])))))"



section \<open>Folder encryption and decryption\<close>

datatype outputPolicy = Overwrite | Skip | Abort

record 'w batch_state =
  skippedCount :: nat
  failures :: "(string \<times> string) list"
  world :: 'w

record 'w encrypt_state = "'w batch_state" +
  encryptedCount :: nat

record 'w decrypt_state = "'w batch_state" +
  decryptedCount :: nat
  signatureFailures :: "string list"

definition recordFailure :: "string \<Rightarrow> js_error \<Rightarrow> 'w \<Rightarrow> ('w, 'a) batch_state_scheme \<Rightarrow> ('w, 'a) batch_state_scheme" where
  \<comment> \<open>the inner \<open>catch\<close> of both loops: \<open>failures.push({file: filePath, error: ...})\<close>\<close>
  "recordFailure filePath error w st =
     st\<lparr>failures := failures st @ [(filePath, errorMessage error)], world := w\<rparr>"

definition encryptOutputPath :: "string \<Rightarrow> string \<Rightarrow> string \<Rightarrow> format \<Rightarrow> string \<Rightarrow> string" where
  \<comment> \<open>\<open>join(outputDir, `${relative(inputDir, filePath)}${outputExtension}`)\<close>\<close>
  "encryptOutputPath cwd inputDir outputDir outputFormat filePath =
     (let relPath = relative cwd inputDir filePath
      in joinPath [outputDir, relPath @ outputExtension outputFormat])"

definition decryptOutputPath :: "string \<Rightarrow> string \<Rightarrow> string \<Rightarrow> string \<Rightarrow> string" where
  \<comment> \<open>\<open>join(outputDir, stripEncryptedExtension(relative(inputDir, filePath)))\<close>\<close>
  "decryptOutputPath cwd inputDir outputDir filePath =
     (let relPath = relative cwd inputDir filePath;
          outputRelPath = stripEncryptedExtension relPath
      in joinPath [outputDir, outputRelPath])"

definition encryptFolderFile ::
  "'w env \<Rightarrow> string \<Rightarrow> string \<Rightarrow> string \<Rightarrow> format \<Rightarrow> outputPolicy \<Rightarrow> string \<Rightarrow>
   'w encrypt_state \<Rightarrow> 'w encrypt_state option" where
  \<comment> \<open>one turn of the \<open>for\<close> loop of \<open>Menu.encryptFolder\<close>: the \<open>throw\<close> of the policy
      \<open>abort\<close> is inside the inner \<open>try\<close>, so the inner \<open>catch\<close> receives it\<close>
  "encryptFolderFile ops cwd inputDir outputDir outputFormat policy filePath st =
     (let outputPath = encryptOutputPath cwd inputDir outputDir outputFormat filePath
      in case mkdir ops (dirname outputPath) (world st) of
           (Some e, w1) \<Rightarrow> Some (recordFailure filePath e w1 st)
         | (None, w1) \<Rightarrow>
             if exists ops outputPath w1 \<and> policy = Skip
             then Some (st\<lparr>skippedCount := skippedCount st + 1, world := w1\<rparr>)
             else if exists ops outputPath w1 \<and> policy = Abort
             then Some (recordFailure filePath (Error ''Output file exists; aborting batch.'') w1 st)
             else
               (case encryptFile ops filePath outputFormat w1 of
                  Inl e \<Rightarrow> Some (recordFailure filePath e w1 st)
                | Inr encrypted \<Rightarrow>
                    (case writeOutputToFile ops encrypted outputPath outputFormat w1 of
                       None \<Rightarrow> None
                     | Some (Some e, w2, tr) \<Rightarrow> Some (recordFailure filePath e w2 st)
                     | Some (None, w2, tr) \<Rightarrow>
                         Some (st\<lparr>world := w2, encryptedCount := encryptedCount st + 1\<rparr>))))"

fun encryptFolderLoop ::
  "'w env \<Rightarrow> string \<Rightarrow> string \<Rightarrow> string \<Rightarrow> format \<Rightarrow> outputPolicy \<Rightarrow> string list \<Rightarrow>
   'w encrypt_state \<Rightarrow> 'w encrypt_state option" where
  "encryptFolderLoop ops cwd inputDir outputDir outputFormat policy [] st = Some st"
| "encryptFolderLoop ops cwd inputDir outputDir outputFormat policy (filePath # filteredFiles) st =
     (case encryptFolderFile ops cwd inputDir outputDir outputFormat policy filePath st of
        None \<Rightarrow> None
      | Some st' \<Rightarrow> encryptFolderLoop ops cwd inputDir outputDir outputFormat policy filteredFiles st')"

definition encryptFolderBatch ::
  "'w env \<Rightarrow> string \<Rightarrow> string \<Rightarrow> string \<Rightarrow> format \<Rightarrow> outputPolicy \<Rightarrow> js_error option \<Rightarrow>
   string list \<Rightarrow> 'w \<Rightarrow> (js_error + 'w encrypt_state) option" where
  \<comment> \<open>the outer \<open>try\<close> of \<open>Menu.encryptFolder\<close>: the recipients' keys are loaded first, and an
      error there ends the run before any file (\<open>keysError\<close>); then the loop runs from
      counters at zero. \<open>Inl\<close> is the outer \<open>catch\<close>, which shows no summary.\<close>
  "encryptFolderBatch ops cwd inputDir outputDir outputFormat policy keysError filteredFiles w =
     (case keysError of
        Some e \<Rightarrow> Some (Inl e)
      | None \<Rightarrow>
          map_option Inr
            (encryptFolderLoop ops cwd inputDir outputDir outputFormat policy filteredFiles
               \<lparr>skippedCount = 0, failures = [], world = w, encryptedCount = 0\<rparr>))"

definition decryptFolderFile ::
  "'w env \<Rightarrow> string \<Rightarrow> string \<Rightarrow> string \<Rightarrow> format_mode \<Rightarrow> outputPolicy \<Rightarrow> bool \<Rightarrow> string \<Rightarrow>
   'w decrypt_state \<Rightarrow> 'w decrypt_state option" where
  \<comment> \<open>one turn of the \<open>for\<close> loop of \<open>Menu.decryptFolder\<close>\<close>
  "decryptFolderFile ops cwd inputDir outputDir formatHandling policy verifySignatures filePath st =
     (let outputPath = decryptOutputPath cwd inputDir outputDir filePath
      in case mkdir ops (dirname outputPath) (world st) of
           (Some e, w1) \<Rightarrow> Some (recordFailure filePath e w1 st)
         | (None, w1) \<Rightarrow>
             if exists ops outputPath w1 \<and> policy = Skip
             then Some (st\<lparr>skippedCount := skippedCount st + 1, world := w1\<rparr>)
             else if exists ops outputPath w1 \<and> policy = Abort
             then Some (recordFailure filePath (Error ''Output file exists; aborting batch.'') w1 st)
             else
               (let fmt = resolveInputFormat filePath formatHandling
                in case decryptFile ops filePath fmt verifySignatures w1 of
                     Inl e \<Rightarrow> Some (recordFailure filePath e w1 st)
                   | Inr (resultData, verified) \<Rightarrow>
                       (case writeOutputToFile ops resultData outputPath Binary w1 of
                          None \<Rightarrow> None
                        | Some (Some e, w2, tr) \<Rightarrow> Some (recordFailure filePath e w2 st)
                        | Some (None, w2, tr) \<Rightarrow>
                            (let st1 = st\<lparr>world := w2, decryptedCount := decryptedCount st + 1\<rparr>
                             in if verifySignatures \<and> verified = Some False
                                then Some (st1\<lparr>signatureFailures := signatureFailures st1 @ [filePath]\<rparr>)
                                else Some st1))))"

fun decryptFolderLoop ::
  "'w env \<Rightarrow> string \<Rightarrow> string \<Rightarrow> string \<Rightarrow> format_mode \<Rightarrow> outputPolicy \<Rightarrow> bool \<Rightarrow> string list \<Rightarrow>
   'w decrypt_state \<Rightarrow> 'w decrypt_state option" where
  "decryptFolderLoop ops cwd inputDir outputDir formatHandling policy verifySignatures [] st = Some st"
| "decryptFolderLoop ops cwd inputDir outputDir formatHandling policy verifySignatures
     (filePath # filteredFiles) st =
     (case decryptFolderFile ops cwd inputDir outputDir formatHandling policy verifySignatures
             filePath st of
        None \<Rightarrow> None
      | Some st' \<Rightarrow>
          decryptFolderLoop ops cwd inputDir outputDir formatHandling policy verifySignatures
            filteredFiles st')"

definition decryptFolderBatch ::
  "'w env \<Rightarrow> string \<Rightarrow> string \<Rightarrow> string \<Rightarrow> format_mode \<Rightarrow> outputPolicy \<Rightarrow> bool \<Rightarrow> string list \<Rightarrow>
   'w \<Rightarrow> 'w decrypt_state option" where
  \<comment> \<open>the loop of \<open>Menu.decryptFolder\<close> from counters at zero; nothing in its outer \<open>try\<close>
      is outside the inner one but pure path computations\<close>
  "decryptFolderBatch ops cwd inputDir outputDir formatHandling policy verifySignatures filteredFiles w =
     decryptFolderLoop ops cwd inputDir outputDir formatHandling policy verifySignatures filteredFiles
       \<lparr>skippedCount = 0, failures = [], world = w, decryptedCount = 0, signatureFailures = []\<rparr>"

text \<open>
  A small file system to run the loops on: the world is the list of the paths that exist,
  every directory can be made, every write succeeds and makes its path exist. The engine
  fails on the files listed in \<open>broken\<close>, and reports a bad signature on those in \<open>unsigned\<close>.
\<close>

definition listEnv :: "string list \<Rightarrow> string list \<Rightarrow> (string list) env" where
  "listEnv broken unsigned =
     \<lparr> mkdir = (\<lambda>dir w. (None, w)),
       exists = (\<lambda>path w. path \<in> set w),
       writeFile = (\<lambda>path bytes w. (None, path # w)),
       openWriter = (\<lambda>path w. (None, path # w)),
       writerWrite = (\<lambda>path chunk w. (Promised None, w)),
       writerEnd = (\<lambda>path w. (Promised None, w)),
       encryptFile = (\<lambda>filePath fmt w.
          if filePath \<in> set broken then Inl (Error ''simulated engine failure'')
          else Inr (BytesData ''ciphertext'')),
       decryptFile = (\<lambda>filePath fmt verify w.
          if filePath \<in> set broken then Inl (Error ''simulated engine failure'')
          else Inr (BytesData ''plaintext'', if filePath \<in> set unsigned then Some False else None)) \<rparr>"

text \<open>
  The words of the claim about the walk. A canonical path is a slash followed by its
  segments joined by slashes; a path is at or under another when the segments of the other
  begin its own; a path is a regular file of a tree when it is reached from the root through
  directories by joining the names of the entries.
\<close>

definition cleanSegment :: "string \<Rightarrow> bool" where
  "cleanSegment s = (s \<noteq> [] \<and> CHR ''/'' \<notin> set s \<and> s \<noteq> ''.'' \<and> s \<noteq> ''..'')"

definition absolutePath :: "string list \<Rightarrow> string" where
  "absolutePath segs = ''/'' @ joinWith ''/'' segs"

definition atOrUnder :: "string \<Rightarrow> string \<Rightarrow> bool" where
  "atOrUnder ex p = prefix (pathSegments ex) (pathSegments p)"

inductive regularFileAt :: "string \<Rightarrow> node \<Rightarrow> string \<Rightarrow> bool" where
  here: "(name, RegularFile) \<in> set entries \<Longrightarrow>
         regularFileAt rootDir (Directory entries) (joinPath [rootDir, name])"
| below: "(name, sub) \<in> set entries \<Longrightarrow> regularFileAt (joinPath [rootDir, name]) sub p \<Longrightarrow>
          regularFileAt rootDir (Directory entries) p"

primrec cleanNames :: "node \<Rightarrow> bool" where
  \<comment> \<open>every entry of the tree has a name a file system gives: not empty, without a slash,
      neither \<open>.\<close> nor \<open>..\<close>\<close>
  "cleanNames RegularFile = True"
| "cleanNames (Directory entries) =
     list_all (\<lambda>entry. cleanSegment (fst entry) \<and> snd entry) (map (map_prod id cleanNames) entries)"
| "cleanNames (UnreadableDirectory e) = True"
| "cleanNames OtherEntry = True"



definition streamEnds :: "(nat \<Rightarrow> read_result) \<Rightarrow> nat \<Rightarrow> bool" where
  \<comment> \<open>the read number \<open>n\<close> reports the end of the stream, or fails\<close>
  "streamEnds rd n = (case rd n of ReadDone \<Rightarrow> True | ReadFailed e \<Rightarrow> True | _ \<Rightarrow> False)"

definition demoStream :: stream where
  \<comment> \<open>a text stream of two chunks with an empty one between them, whose fourth read fails\<close>
  "demoStream =
     \<lparr>reads = (\<lambda>k. if k = 0 then ReadValue (TextChunk ''ab'')
                    else if k = 1 then ReadValue (TextChunk [])
                    else if k = 2 then ReadValue (TextChunk ''cd'')
                    else ReadFailed (Error ''read failed'')),
      lockedError = None, hasReleaseLock = True\<rparr>"





text \<open>
  The conditions of the claims about one turn of the loops. A task \<open>proceeds\<close> when its
  output directory can be made and no collision stops it; its transform or its write fails
  with an error, leaving a world.
\<close>

definition proceeds :: "'w env \<Rightarrow> outputPolicy \<Rightarrow> string \<Rightarrow> 'w \<Rightarrow> 'w option" where
  "proceeds ops policy outputPath w =
     (case mkdir ops (dirname outputPath) w of
        (Some e, w1) \<Rightarrow> None
      | (None, w1) \<Rightarrow> if exists ops outputPath w1 \<and> policy \<noteq> Overwrite then None else Some w1)"

definition transformOrWriteFailure ::
  "(js_error + output_data) \<Rightarrow> 'w env \<Rightarrow> string \<Rightarrow> format \<Rightarrow> 'w \<Rightarrow> (js_error \<times> 'w) option" where
  "transformOrWriteFailure transformed ops outputPath fmt w1 =
     (case transformed of
        Inl e \<Rightarrow> Some (e, w1)
      | Inr resultData \<Rightarrow>
          (case writeOutputToFile ops resultData outputPath fmt w1 of
             Some (Some e, w2, tr) \<Rightarrow> Some (e, w2)
           | _ \<Rightarrow> None))"

definition accounted :: "('w, 'a) batch_state_scheme \<Rightarrow> nat \<Rightarrow> nat" where
  \<comment> \<open>processed + skipped + failed\<close>
  "accounted st processed = processed + skippedCount st + length (failures st)"

definition withoutVerification :: "'w env \<Rightarrow> 'w env" where
  \<comment> \<open>the same environment with an engine that reports nothing about signatures\<close>
  "withoutVerification ops =
     ops\<lparr>decryptFile :=
       (\<lambda>filePath fmt verify w.
          map_sum id (\<lambda>result. (fst result, None)) (decryptFile ops filePath fmt verify w))\<rparr>"

definition outcomeApartFromSignatures ::
  "'w decrypt_state \<Rightarrow> nat \<times> nat \<times> (string \<times> string) list \<times> 'w" where
  "outcomeApartFromSignatures st = (decryptedCount st, skippedCount st, failures st, world st)"

definition stripsToSameName :: "string \<Rightarrow> string \<Rightarrow> bool" where
  \<comment> \<open>two relative paths of which the decrypt naming makes one name: they are equal, or both
      end with a recognized suffix and agree before it, or one ends with a recognized suffix
      and is, before it, the other one followed by \<open>.decrypted\<close>\<close>
  "stripsToSameName p q =
     (p = q \<or>
      (endsWithEncryptedSuffix p \<and> endsWithEncryptedSuffix q \<and>
         take (length p - 4) p = take (length q - 4) q) \<or>
      (endsWithEncryptedSuffix p \<and> \<not> endsWithEncryptedSuffix q \<and>
         take (length p - 4) p = q @ ''.decrypted'') \<or>
      (endsWithEncryptedSuffix q \<and> \<not> endsWithEncryptedSuffix p \<and>
         take (length q - 4) q = p @ ''.decrypted''))"

section \<open>Characters and the suffix rule\<close>

lemma char_eq_nat: "c = d \<longleftrightarrow> (of_char c :: nat) = of_char d"
  by simp

lemma of_char_toLowerCaseChar:
  "(of_char (toLowerCaseChar c) :: nat) =
     (let n = of_char c
      in if (65 \<le> n \<and> n \<le> 90) \<or> (192 \<le> n \<and> n \<le> 222 \<and> n \<noteq> 215) then n + 32 else n)"
  by (auto simp: toLowerCaseChar_def Let_def)

lemma of_char_regexCanonicalize:
  "(of_char (regexCanonicalize c) :: nat) =
     (let n = of_char c
      in if (97 \<le> n \<and> n \<le> 122) \<or> (224 \<le> n \<and> n \<le> 254 \<and> n \<noteq> 247) then n - 32 else n)"
  by (auto simp: regexCanonicalize_def Let_def)

lemma toLowerCaseChar_dot: "toLowerCaseChar c = CHR ''.'' \<longleftrightarrow> c = CHR ''.''"
  unfolding char_eq_nat [of _ "CHR ''.''"] of_char_toLowerCaseChar by (auto simp: Let_def)

lemma canonicalize_capital_iff:
  fixes m :: nat
  assumes "65 \<le> m" "m \<le> 90"
  shows "regexCanonicalize c = char_of m \<longleftrightarrow> toLowerCaseChar c = char_of (m + 32)"
proof -
  have "regexCanonicalize c = char_of m \<longleftrightarrow> (of_char (regexCanonicalize c) :: nat) = m"
    using assms by (subst char_eq_nat) simp
  also have "\<dots> \<longleftrightarrow> (of_char (toLowerCaseChar c) :: nat) = m + 32"
    using assms unfolding of_char_regexCanonicalize of_char_toLowerCaseChar
    by (auto simp: Let_def)
  also have "\<dots> \<longleftrightarrow> toLowerCaseChar c = char_of (m + 32)"
    using assms by (subst char_eq_nat) simp
  finally show ?thesis .
qed

lemma suffix_letters:
  "CHR ''P'' = char_of (80::nat)" "CHR ''G'' = char_of (71::nat)" "CHR ''A'' = char_of (65::nat)"
  "CHR ''S'' = char_of (83::nat)" "CHR ''C'' = char_of (67::nat)"
  "CHR ''p'' = char_of (112::nat)" "CHR ''g'' = char_of (103::nat)" "CHR ''a'' = char_of (97::nat)"
  "CHR ''s'' = char_of (115::nat)" "CHR ''c'' = char_of (99::nat)"
  by (simp_all add: char_of_eq_iff [THEN iffD2, symmetric])

lemma canonicalize_suffix_letter:
  "regexCanonicalize c = CHR ''P'' \<longleftrightarrow> toLowerCaseChar c = CHR ''p''"
  "regexCanonicalize c = CHR ''G'' \<longleftrightarrow> toLowerCaseChar c = CHR ''g''"
  "regexCanonicalize c = CHR ''A'' \<longleftrightarrow> toLowerCaseChar c = CHR ''a''"
  "regexCanonicalize c = CHR ''S'' \<longleftrightarrow> toLowerCaseChar c = CHR ''s''"
  "regexCanonicalize c = CHR ''C'' \<longleftrightarrow> toLowerCaseChar c = CHR ''c''"
  unfolding suffix_letters
  using canonicalize_capital_iff [of 80 c] canonicalize_capital_iff [of 71 c]
    canonicalize_capital_iff [of 65 c] canonicalize_capital_iff [of 83 c]
    canonicalize_capital_iff [of 67 c]
  by simp_all

lemma length_four: "length s = 4 \<longleftrightarrow> (\<exists>a b c d. s = [a, b, c, d])"
  by (auto simp: length_Suc_conv eval_nat_numeral)

lemma matchesEncryptedSuffix_iff:
  "matchesEncryptedSuffix s \<longleftrightarrow>
     length s = 4 \<and> toLowerCase s \<in> set [''.pgp'', ''.gpg'', ''.asc'']"
proof (cases "length s = 4")
  case True
  then obtain a b c d where s: "s = [a, b, c, d]"
    unfolding length_four by blast
  show ?thesis
    unfolding s
    by (auto simp: matchesEncryptedSuffix_def toLowerCase_def canonicalize_suffix_letter
        toLowerCaseChar_dot)
next
  case False
  then show ?thesis
    by (auto simp: matchesEncryptedSuffix_def split: list.splits)
qed

lemma replaceEncryptedSuffix_cases:
  "replaceEncryptedSuffix p = (if endsWithEncryptedSuffix p then take (length p - 4) p else p)"
  by (auto simp: replaceEncryptedSuffix_def endsWithEncryptedSuffix_def matchesEncryptedSuffix_iff)

lemma take_shorter_neq: "4 \<le> length p \<Longrightarrow> take (length p - 4) p \<noteq> p"
proof
  assume "4 \<le> length p" "take (length p - 4) p = p"
  then have "length (take (length p - 4) p) = length p" by simp
  with \<open>4 \<le> length p\<close> show False by simp
qed

lemma stripEncryptedExtension_spec: "stripEncryptedExtension p = decryptedName_spec p"
  by (auto simp: stripEncryptedExtension_def decryptedName_spec_def replaceEncryptedSuffix_cases
      Let_def take_shorter_neq endsWithEncryptedSuffix_def)

lemma suggestDecryptedOutputPath_spec: "suggestDecryptedOutputPath p = decryptedName_spec p"
  by (auto simp: suggestDecryptedOutputPath_def decryptedName_spec_def replaceEncryptedSuffix_cases
      Let_def take_shorter_neq endsWithEncryptedSuffix_def)

lemma endsWithEncryptedSuffix_append:
  "toLowerCase s \<in> set [''.pgp'', ''.gpg'', ''.asc''] \<Longrightarrow> endsWithEncryptedSuffix (p @ s)"
  by (auto simp: endsWithEncryptedSuffix_def toLowerCase_def)

lemma endsWithEncryptedSuffix_outputExtension:
  "endsWithEncryptedSuffix (p @ outputExtension outputFormat)"
  by (rule endsWithEncryptedSuffix_append)
    (simp add: outputExtension_def toLowerCase_def toLowerCaseChar_def char_of_eq_iff)

section \<open>Encrypt-then-decrypt naming\<close>

text \<open>
  C5. For every relative path and either output format, the decrypt naming undoes the
  encrypt naming: appending \<open>.asc\<close> (armored) or \<open>.pgp\<close> (binary) and then stripping the
  known suffix gives the relative path back as it was, every directory segment included.
\<close>

theorem strip_after_encrypt_roundtrip:
  "stripEncryptedExtension (relPath @ outputExtension outputFormat) = relPath"
  using endsWithEncryptedSuffix_outputExtension [of relPath outputFormat]
  by (simp add: stripEncryptedExtension_spec decryptedName_spec_def outputExtension_def)

theorem strip_after_encrypt_roundtrip_witness:
  "stripEncryptedExtension (''sub/b.txt'' @ outputExtension Armored) = ''sub/b.txt'' \<and>
   stripEncryptedExtension (''sub/b.txt'' @ outputExtension Binary) = ''sub/b.txt''"
  using strip_after_encrypt_roundtrip [of "''sub/b.txt''" Armored]
    strip_after_encrypt_roundtrip [of "''sub/b.txt''" Binary]
  by simp

section \<open>The two suffix rules\<close>

text \<open>
  C9. The output suggestion of the single-file decryption and the suffix stripping of the
  folder decryption give the same result on every path: both are the rule that strips a
  trailing \<open>.pgp\<close>, \<open>.gpg\<close> or \<open>.asc\<close>, whatever its case, and appends \<open>.decrypted\<close>
  otherwise.
\<close>

theorem suggest_equals_strip:
  "suggestDecryptedOutputPath p = stripEncryptedExtension p \<and>
   stripEncryptedExtension p = decryptedName_spec p"
  by (simp add: suggestDecryptedOutputPath_spec stripEncryptedExtension_spec)

theorem suggest_equals_strip_witness:
  "suggestDecryptedOutputPath ''docs/Report.PGP'' = ''docs/Report'' \<and>
   stripEncryptedExtension ''docs/Report.PGP'' = ''docs/Report'' \<and>
   suggestDecryptedOutputPath ''notes.txt'' = ''notes.txt.decrypted'' \<and>
   stripEncryptedExtension ''notes.txt'' = ''notes.txt.decrypted''"
proof -
  have a: "decryptedName_spec ''docs/Report.PGP'' = ''docs/Report''"
    by code_simp
  have b: "decryptedName_spec ''notes.txt'' = ''notes.txt.decrypted''"
    by code_simp
  show ?thesis
    using suggest_equals_strip [of "''docs/Report.PGP''"] suggest_equals_strip [of "''notes.txt''"] a b
    by simp
qed

section \<open>Parsing the extension filter\<close>

lemma startsWith_dot: "startsWith v ''.'' \<longleftrightarrow> (\<exists>cs. v = CHR ''.'' # cs)"
  by (cases v) (auto simp: startsWith_def)

lemma dot_then_lower_is_lower_then_dot:
  "(if startsWith v ''.'' then toLowerCase v else ''.'' @ toLowerCase v) =
     ensureLeadingDot (toLowerCase v)"
  by (cases v) (auto simp: startsWith_dot ensureLeadingDot_def toLowerCase_def toLowerCaseChar_dot)

text \<open>
  C7. \<open>parseExtensionFilter\<close> is the function the spec describes: the input split on
  commas, every token trimmed, the empty ones dropped, the rest lower-cased and given a
  leading dot when they lack one, and the defaults returned as they are when no token
  remains. The two examples of the spec come out as it says.
\<close>

theorem parseExtensionFilter_refines_spec:
  "parseExtensionFilter input defaults = parseExtensionFilter_spec input defaults \<and>
   parseExtensionFilter '' .PDF, txt '' [''.pgp''] = [''.pdf'', ''.txt''] \<and>
   parseExtensionFilter [] [''.pgp''] = [''.pgp'']"
proof -
  have "parseExtensionFilter input defaults = parseExtensionFilter_spec input defaults"
    by (simp add: parseExtensionFilter_def parseExtensionFilter_spec_def filterTokens_def
        dot_then_lower_is_lower_then_dot Let_def)
  moreover have "parseExtensionFilter '' .PDF, txt '' [''.pgp''] = [''.pdf'', ''.txt'']"
    by code_simp
  moreover have "parseExtensionFilter [] [''.pgp''] = [''.pgp'']"
    by code_simp
  ultimately show ?thesis by simp
qed

theorem parseExtensionFilter_refines_spec_witness:
  "parseExtensionFilter ''ASC , ,.Gpg'' [''.pgp''] = [''.asc'', ''.gpg''] \<and>
   parseExtensionFilter '' , '' [''.pgp''] = [''.pgp'']"
proof -
  have a: "parseExtensionFilter_spec ''ASC , ,.Gpg'' [''.pgp''] = [''.asc'', ''.gpg'']"
    by code_simp
  have b: "parseExtensionFilter_spec '' , '' [''.pgp''] = [''.pgp'']"
    by code_simp
  show ?thesis
    using parseExtensionFilter_refines_spec [of "''ASC , ,.Gpg''" "[''.pgp'']"]
      parseExtensionFilter_refines_spec [of "'' , ''" "[''.pgp'']"] a b
    by simp
qed

section \<open>The streaming loop\<close>





text \<open>
  On a stream that ends, each of the two readers settles, moves on in the source, and stays
  before the end of the source unless it reports the end or fails.
\<close>

lemma sourceRead_settles:
  assumes "streamEnds rd n" "i \<le> n"
  shows "\<exists>r j. sourceRead rd i = Some (r, j) \<and> i < j \<and>
           (case r of ReadValue value \<Rightarrow> j \<le> n | _ \<Rightarrow> True)"
  using assms
  by (cases "i = n") (auto simp: sourceRead_def streamEnds_def split: read_result.splits)

lemma encodedRead_settles_from:
  "streamEnds rd (i + d) \<Longrightarrow>
   \<exists>r j. encodedRead rd i = Some (r, j) \<and> i < j \<and>
     (case r of ReadValue value \<Rightarrow> j \<le> i + d | _ \<Rightarrow> True)"
proof (induction d arbitrary: i)
  case 0
  then show ?case
    by (subst encodedRead.simps) (auto simp: streamEnds_def split: read_result.splits)
next
  case (Suc d)
  then have "streamEnds rd (Suc i + d)"
    by simp
  from Suc.IH [OF this] obtain r j where
    later: "encodedRead rd (Suc i) = Some (r, j)" "Suc i < j"
      "case r of ReadValue value \<Rightarrow> j \<le> Suc i + d | _ \<Rightarrow> True"
    by blast
  show ?case
  proof (cases "rd i")
    case (ReadValue v)
    show ?thesis
    proof (cases "chunkToString v = []")
      case True
      with ReadValue later show ?thesis
        by (subst encodedRead.simps) (auto split: read_result.splits)
    next
      case False
      with ReadValue show ?thesis
        by (subst encodedRead.simps) simp
    qed
  next
    case ReadDone
    then show ?thesis
      by (subst encodedRead.simps) simp
  next
    case (ReadFailed e)
    then show ?thesis
      by (subst encodedRead.simps) simp
  qed
qed

lemma encodedRead_settles:
  assumes "streamEnds rd n" "i \<le> n"
  shows "\<exists>r j. encodedRead rd i = Some (r, j) \<and> i < j \<and>
           (case r of ReadValue value \<Rightarrow> j \<le> n | _ \<Rightarrow> True)"
proof -
  from assms(2) have "i + (n - i) = n"
    by simp
  with encodedRead_settles_from [of rd i "n - i"] assms(1) show ?thesis
    by (simp only:)
qed

text \<open>The loop ends on every stream that ends.\<close>

lemma pumpLoop_returns_from:
  assumes reader: "\<And>i. i \<le> n \<Longrightarrow>
      \<exists>r j. readAt i = Some (r, j) \<and> i < j \<and> (case r of ReadValue value \<Rightarrow> j \<le> n | _ \<Rightarrow> True)"
  shows "i \<le> n \<Longrightarrow> \<exists>y. pumpLoop writeChunk readAt i w tr = Some y"
proof (induction "n - i" arbitrary: i w tr rule: less_induct)
  case less
  from reader [OF less.prems] obtain r j where
    rd: "readAt i = Some (r, j)" and forward: "i < j"
    and bound: "case r of ReadValue value \<Rightarrow> j \<le> n | _ \<Rightarrow> True"
    by blast
  show ?case
  proof (cases r)
    case (ReadValue v)
    with bound have "j \<le> n"
      by simp
    moreover from this forward have "n - j < n - i"
      by simp
    ultimately have later: "\<exists>y. pumpLoop writeChunk readAt j w1 tr1 = Some y" for w1 tr1
      using less.hyps by blast
    obtain cr w' where wr: "writeChunk v w = (cr, w')"
      by (cases "writeChunk v w")
    show ?thesis
      using later rd ReadValue wr
      by (subst pumpLoop.simps) (auto split: call_result.splits option.splits)
  next
    case ReadDone
    with rd show ?thesis
      by (subst pumpLoop.simps) simp
  next
    case (ReadFailed e)
    with rd show ?thesis
      by (subst pumpLoop.simps) simp
  qed
qed

text \<open>\<open>writeOutputToFile\<close> returns on a string, on bytes, and on every stream that ends.\<close>

lemma writeOutputToFile_returns:
  assumes "case data of StreamData s \<Rightarrow> streamEnds (reads s) n | _ \<Rightarrow> True"
  shows "writeOutputToFile ops data outputPath fmt w \<noteq> None"
proof (cases data)
  case (StreamData s)
  with assms have ends: "streamEnds (reads s) n"
    by simp
  define readAt where
    "readAt = (if fmt = Armored then encodedRead (reads s) else sourceRead (reads s))"
  have reader: "\<exists>r j. readAt i = Some (r, j) \<and> i < j \<and>
      (case r of ReadValue value \<Rightarrow> j \<le> n | _ \<Rightarrow> True)"
    if "i \<le> n" for i
    using sourceRead_settles [OF ends that] encodedRead_settles [OF ends that]
    by (simp add: readAt_def)
  have loop: "\<exists>y. pumpLoop (writerWrite ops outputPath) readAt 0 w1 tr1 = Some y" for w1 tr1
    using pumpLoop_returns_from [of n readAt 0 "writerWrite ops outputPath" w1 tr1] reader
    by simp
  show ?thesis
  proof (cases "lockedError s")
    case (Some e)
    then show ?thesis
      unfolding StreamData writeOutputToFile_def by simp
  next
    case None
    obtain opened w1 where ow: "openWriter ops outputPath w = (opened, w1)"
      by (cases "openWriter ops outputPath w")
    from loop obtain y where
      "pumpLoop (writerWrite ops outputPath) readAt 0 w1
         ((if fmt = Armored then [EvPipeThrough, EvGetReader] else [EvGetReader]) @
          [EvOpenWriter outputPath]) = Some y"
      by blast
    with None ow show ?thesis
      unfolding StreamData writeOutputToFile_def
      by (cases opened) (simp_all add: readAt_def Let_def)
  qed
qed (auto simp: writeOutputToFile_def split: prod.splits option.splits)











text \<open>
  Two more runs. Under binary the function reads the stream itself: an empty string among
  the chunks is falsy and skipped by the loop, which reads again. And a write that throws
  ends the loop at once: the error reaches the caller after the release and the end.
\<close>

lemma writeOutputToFile_stream_run:
  "writeOutputToFile (listEnv [] [])
     (StreamData \<lparr>reads = (\<lambda>k. if k = 0 then ReadValue (ByteChunk ''ab'')
                              else if k = 1 then ReadValue (TextChunk [])
                              else if k = 2 then ReadValue (ByteChunk ''cd'')
                              else ReadDone),
                  lockedError = None, hasReleaseLock = True\<rparr>)
     ''/out/a.pgp'' Binary [] =
   Some (None, [''/out/a.pgp''],
     [EvGetReader, EvOpenWriter ''/out/a.pgp'', EvRead, EvWrite (ByteChunk ''ab''), EvWriteAwaited,
      EvRead, EvRead, EvWrite (ByteChunk ''cd''), EvWriteAwaited, EvRead,
      EvReleaseLock, EvEnd, EvEndAwaited])"
  by code_simp

lemma writeOutputToFile_failed_write_run:
  "writeOutputToFile
     ((listEnv [] [])\<lparr>writerWrite := (\<lambda>path value w. (Threw (Error ''disk full''), w))\<rparr>)
     (StreamData demoStream) ''/out/a.asc'' Armored [] =
   Some (Some (Error ''disk full''), [''/out/a.asc''],
     [EvPipeThrough, EvGetReader, EvOpenWriter ''/out/a.asc'',
      EvRead, EvWrite (ByteChunk ''ab''), EvReleaseLock, EvEnd, EvEndAwaited])"
  by code_simp

section \<open>One turn of the folder loops\<close>

lemma policy_not_Overwrite: "policy \<noteq> Overwrite \<longleftrightarrow> policy = Skip \<or> policy = Abort"
  by (cases policy) auto

lemma encryptFolderFile_failure:
  assumes "proceeds ops policy (encryptOutputPath cwd inputDir outputDir fmt f) (world st) = Some w1"
    and "transformOrWriteFailure (encryptFile ops f fmt w1) ops
           (encryptOutputPath cwd inputDir outputDir fmt f) fmt w1 = Some (e, w2)"
  shows "encryptFolderFile ops cwd inputDir outputDir fmt policy f st =
           Some (st\<lparr>failures := failures st @ [(f, errorMessage e)], world := w2\<rparr>)"
  using assms
  by (auto simp: encryptFolderFile_def proceeds_def transformOrWriteFailure_def recordFailure_def
      Let_def policy_not_Overwrite split: prod.splits option.splits sum.splits if_splits)

lemma decryptFolderFile_failure:
  assumes "proceeds ops policy (decryptOutputPath cwd inputDir outputDir f) (world st) = Some w1"
    and "transformOrWriteFailure
           (map_sum id fst (decryptFile ops f (resolveInputFormat f mode) verify w1)) ops
           (decryptOutputPath cwd inputDir outputDir f) Binary w1 = Some (e, w2)"
  shows "decryptFolderFile ops cwd inputDir outputDir mode policy verify f st =
           Some (st\<lparr>failures := failures st @ [(f, errorMessage e)], world := w2\<rparr>)"
  using assms
  by (auto simp: decryptFolderFile_def proceeds_def transformOrWriteFailure_def recordFailure_def
      Let_def policy_not_Overwrite split: prod.splits option.splits sum.splits if_splits)

lemma encryptFolderFile_accounting:
  assumes "encryptFolderFile ops cwd inputDir outputDir fmt policy f st = Some st'"
  shows "accounted st' (encryptedCount st') = accounted st (encryptedCount st) + 1 \<and>
         (failures st' = failures st \<or> (\<exists>m. failures st' = failures st @ [(f, m)]))"
  using assms
  by (auto simp: encryptFolderFile_def recordFailure_def accounted_def Let_def
      split: prod.splits option.splits sum.splits if_splits)

lemma decryptFolderFile_accounting:
  assumes "decryptFolderFile ops cwd inputDir outputDir mode policy verify f st = Some st'"
  shows "accounted st' (decryptedCount st') = accounted st (decryptedCount st) + 1 \<and>
         (failures st' = failures st \<or> (\<exists>m. failures st' = failures st @ [(f, m)]))"
  using assms
  by (auto simp: decryptFolderFile_def recordFailure_def accounted_def Let_def
      split: prod.splits option.splits sum.splits if_splits)

section \<open>The folder loops\<close>

lemma encryptFolderLoop_accounting:
  "encryptFolderLoop ops cwd inputDir outputDir fmt policy files st = Some st' \<Longrightarrow>
   accounted st' (encryptedCount st') = accounted st (encryptedCount st) + length files \<and>
   (\<exists>fs. failures st' = failures st @ fs \<and> subseq (map fst fs) files)"
proof (induction files arbitrary: st)
  case Nil
  then show ?case by simp
next
  case (Cons f files)
  from Cons.prems obtain st1 where
    one: "encryptFolderFile ops cwd inputDir outputDir fmt policy f st = Some st1"
    and rest: "encryptFolderLoop ops cwd inputDir outputDir fmt policy files st1 = Some st'"
    by (auto split: option.splits)
  from Cons.IH [OF rest] obtain fs where
    acc: "accounted st' (encryptedCount st') = accounted st1 (encryptedCount st1) + length files"
    and fs: "failures st' = failures st1 @ fs" "subseq (map fst fs) files"
    by blast
  from encryptFolderFile_accounting [OF one] have
    acc1: "accounted st1 (encryptedCount st1) = accounted st (encryptedCount st) + 1"
    and f1: "failures st1 = failures st \<or> (\<exists>m. failures st1 = failures st @ [(f, m)])"
    by blast+
  from f1 show ?case
  proof
    assume "failures st1 = failures st"
    with acc acc1 fs show ?thesis
      by (intro conjI exI [of _ fs]) auto
  next
    assume "\<exists>m. failures st1 = failures st @ [(f, m)]"
    then obtain m where "failures st1 = failures st @ [(f, m)]" ..
    with acc acc1 fs show ?thesis
      by (intro conjI exI [of _ "(f, m) # fs"]) auto
  qed
qed

lemma decryptFolderLoop_accounting:
  "decryptFolderLoop ops cwd inputDir outputDir mode policy verify files st = Some st' \<Longrightarrow>
   accounted st' (decryptedCount st') = accounted st (decryptedCount st) + length files \<and>
   (\<exists>fs. failures st' = failures st @ fs \<and> subseq (map fst fs) files)"
proof (induction files arbitrary: st)
  case Nil
  then show ?case by simp
next
  case (Cons f files)
  from Cons.prems obtain st1 where
    one: "decryptFolderFile ops cwd inputDir outputDir mode policy verify f st = Some st1"
    and rest: "decryptFolderLoop ops cwd inputDir outputDir mode policy verify files st1 = Some st'"
    by (auto split: option.splits)
  from Cons.IH [OF rest] obtain fs where
    acc: "accounted st' (decryptedCount st') = accounted st1 (decryptedCount st1) + length files"
    and fs: "failures st' = failures st1 @ fs" "subseq (map fst fs) files"
    by blast
  from decryptFolderFile_accounting [OF one] have
    acc1: "accounted st1 (decryptedCount st1) = accounted st (decryptedCount st) + 1"
    and f1: "failures st1 = failures st \<or> (\<exists>m. failures st1 = failures st @ [(f, m)])"
    by blast+
  from f1 show ?case
  proof
    assume "failures st1 = failures st"
    with acc acc1 fs show ?thesis
      by (intro conjI exI [of _ fs]) auto
  next
    assume "\<exists>m. failures st1 = failures st @ [(f, m)]"
    then obtain m where "failures st1 = failures st @ [(f, m)]" ..
    with acc acc1 fs show ?thesis
      by (intro conjI exI [of _ "(f, m) # fs"]) auto
  qed
qed

lemma encryptFolderLoop_append:
  "encryptFolderLoop ops cwd inputDir outputDir fmt policy (xs @ ys) st =
     Option.bind (encryptFolderLoop ops cwd inputDir outputDir fmt policy xs st)
       (encryptFolderLoop ops cwd inputDir outputDir fmt policy ys)"
  by (induction xs arbitrary: st) (auto split: option.splits)

lemma decryptFolderLoop_append:
  "decryptFolderLoop ops cwd inputDir outputDir mode policy verify (xs @ ys) st =
     Option.bind (decryptFolderLoop ops cwd inputDir outputDir mode policy verify xs st)
       (decryptFolderLoop ops cwd inputDir outputDir mode policy verify ys)"
  by (induction xs arbitrary: st) (auto split: option.splits)

text \<open>
  The loops return whenever every write does, which is the case when the engine hands out
  no stream that never ends.
\<close>

lemma encryptFolderLoop_returns:
  assumes "\<And>f w d. encryptFile ops f fmt w = Inr d \<Longrightarrow>
             \<exists>n. case d of StreamData s \<Rightarrow> streamEnds (reads s) n | _ \<Rightarrow> True"
  shows "encryptFolderLoop ops cwd inputDir outputDir fmt policy files st \<noteq> None"
proof (induction files arbitrary: st)
  case Nil
  then show ?case by simp
next
  case (Cons f files)
  have "encryptFolderFile ops cwd inputDir outputDir fmt policy f st \<noteq> None"
  proof -
    have written: False
      if "encryptFile ops f fmt w = Inr d" "writeOutputToFile ops d outputPath fmt w = None"
      for d outputPath w
    proof -
      from assms [OF that(1)] obtain n where
        "case d of StreamData s \<Rightarrow> streamEnds (reads s) n | _ \<Rightarrow> True" ..
      then have "writeOutputToFile ops d outputPath fmt w \<noteq> None"
        by (rule writeOutputToFile_returns)
      with that(2) show False
        by simp
    qed
    show ?thesis
      by (auto simp: encryptFolderFile_def Let_def split: prod.splits option.splits sum.splits
          dest: written)
  qed
  with Cons.IH show ?case
    by (auto split: option.splits)
qed

section \<open>Failures of single files\<close>

text \<open>
  A turn of either loop reads nothing of the state of the run but the world: from two
  states with the same world it does the same thing, adding the same to the counters and to
  the failures.
\<close>

lemma encryptFolderFile_reads_world_only:
  assumes "world st2 = world st"
  shows "encryptFolderFile ops cwd inputDir outputDir fmt policy f st2 =
     map_option
       (\<lambda>st'. st2\<lparr>skippedCount := skippedCount st2 + (skippedCount st' - skippedCount st),
                   failures := failures st2 @ drop (length (failures st)) (failures st'),
                   world := world st',
                   encryptedCount := encryptedCount st2 + (encryptedCount st' - encryptedCount st)\<rparr>)
       (encryptFolderFile ops cwd inputDir outputDir fmt policy f st)"
  using assms
  by (auto simp: encryptFolderFile_def recordFailure_def Let_def
      split: prod.splits option.splits sum.splits)

lemma decryptFolderFile_reads_world_only:
  assumes "world st2 = world st"
  shows "decryptFolderFile ops cwd inputDir outputDir mode policy verify f st2 =
     map_option
       (\<lambda>st'. st2\<lparr>skippedCount := skippedCount st2 + (skippedCount st' - skippedCount st),
                   failures := failures st2 @ drop (length (failures st)) (failures st'),
                   world := world st',
                   decryptedCount := decryptedCount st2 + (decryptedCount st' - decryptedCount st),
                   signatureFailures := signatureFailures st2 @
                     drop (length (signatureFailures st)) (signatureFailures st')\<rparr>)
       (decryptFolderFile ops cwd inputDir outputDir mode policy verify f st)"
  using assms
  by (auto simp: decryptFolderFile_def recordFailure_def Let_def
      split: prod.splits option.splits sum.splits)

text \<open>
  The same holds of a whole run of either loop: the counters only grow, the lists only get
  longer, and from any counters and lists the loop does the same thing on the same world.
\<close>

lemma encryptFolderFile_grows:
  assumes "encryptFolderFile ops cwd inputDir outputDir fmt policy f st = Some st'"
  shows "skippedCount st \<le> skippedCount st' \<and> encryptedCount st \<le> encryptedCount st' \<and>
         (\<exists>fs. failures st' = failures st @ fs)"
  using assms
  by (auto simp: encryptFolderFile_def recordFailure_def Let_def
      split: prod.splits option.splits sum.splits if_splits)

lemma encryptFolderLoop_grows:
  "encryptFolderLoop ops cwd inputDir outputDir fmt policy files st = Some st' \<Longrightarrow>
   skippedCount st \<le> skippedCount st' \<and> encryptedCount st \<le> encryptedCount st' \<and>
   (\<exists>fs. failures st' = failures st @ fs)"
proof (induction files arbitrary: st)
  case Nil
  then show ?case by simp
next
  case (Cons f files)
  from Cons.prems obtain st1 where
    one: "encryptFolderFile ops cwd inputDir outputDir fmt policy f st = Some st1"
    and rest: "encryptFolderLoop ops cwd inputDir outputDir fmt policy files st1 = Some st'"
    by (auto split: option.splits)
  from encryptFolderFile_grows [OF one] Cons.IH [OF rest] show ?case
    by auto
qed

lemma encryptFolderLoop_reads_world_only:
  "encryptFolderLoop ops cwd inputDir outputDir fmt policy files
     (st\<lparr>skippedCount := skipped, failures := failed, encryptedCount := processed\<rparr>) =
   map_option
     (\<lambda>st'. st'\<lparr>skippedCount := skipped + (skippedCount st' - skippedCount st),
                 failures := failed @ drop (length (failures st)) (failures st'),
                 encryptedCount := processed + (encryptedCount st' - encryptedCount st)\<rparr>)
     (encryptFolderLoop ops cwd inputDir outputDir fmt policy files st)"
proof (induction files arbitrary: st skipped failed processed)
  case Nil
  then show ?case by simp
next
  case (Cons f files)
  have turn: "encryptFolderFile ops cwd inputDir outputDir fmt policy f
     (st\<lparr>skippedCount := skipped, failures := failed, encryptedCount := processed\<rparr>) =
     map_option
       (\<lambda>st'. st'\<lparr>skippedCount := skipped + (skippedCount st' - skippedCount st),
                   failures := failed @ drop (length (failures st)) (failures st'),
                   encryptedCount := processed + (encryptedCount st' - encryptedCount st)\<rparr>)
       (encryptFolderFile ops cwd inputDir outputDir fmt policy f st)"
    by (auto simp: encryptFolderFile_def recordFailure_def Let_def
        split: prod.splits option.splits sum.splits)
  show ?case
  proof (cases "encryptFolderFile ops cwd inputDir outputDir fmt policy f st")
    case None
    with turn show ?thesis
      by simp
  next
    case (Some st1)
    from encryptFolderFile_grows [OF Some] obtain fs1 where
      g1: "skippedCount st \<le> skippedCount st1" "encryptedCount st \<le> encryptedCount st1"
        "failures st1 = failures st @ fs1"
      by blast
    have "map_option
       (\<lambda>st'. st'\<lparr>skippedCount := skipped + (skippedCount st1 - skippedCount st) +
                     (skippedCount st' - skippedCount st1),
                   failures := (failed @ drop (length (failures st)) (failures st1)) @
                     drop (length (failures st1)) (failures st'),
                   encryptedCount := processed + (encryptedCount st1 - encryptedCount st) +
                     (encryptedCount st' - encryptedCount st1)\<rparr>)
       (encryptFolderLoop ops cwd inputDir outputDir fmt policy files st1) =
     map_option
       (\<lambda>st'. st'\<lparr>skippedCount := skipped + (skippedCount st' - skippedCount st),
                   failures := failed @ drop (length (failures st)) (failures st'),
                   encryptedCount := processed + (encryptedCount st' - encryptedCount st)\<rparr>)
       (encryptFolderLoop ops cwd inputDir outputDir fmt policy files st1)"
    proof (rule option.map_cong [OF refl])
      fix st'
      assume "st' \<in> set_option (encryptFolderLoop ops cwd inputDir outputDir fmt policy files st1)"
      then have "encryptFolderLoop ops cwd inputDir outputDir fmt policy files st1 = Some st'"
        by simp
      from encryptFolderLoop_grows [OF this] obtain fs where
        "skippedCount st1 \<le> skippedCount st'" "encryptedCount st1 \<le> encryptedCount st'"
        "failures st' = failures st1 @ fs"
        by blast
      with g1 show "st'\<lparr>skippedCount := skipped + (skippedCount st1 - skippedCount st) +
                     (skippedCount st' - skippedCount st1),
                   failures := (failed @ drop (length (failures st)) (failures st1)) @
                     drop (length (failures st1)) (failures st'),
                   encryptedCount := processed + (encryptedCount st1 - encryptedCount st) +
                     (encryptedCount st' - encryptedCount st1)\<rparr> =
          st'\<lparr>skippedCount := skipped + (skippedCount st' - skippedCount st),
                   failures := failed @ drop (length (failures st)) (failures st'),
                   encryptedCount := processed + (encryptedCount st' - encryptedCount st)\<rparr>"
        by simp
    qed
    with Some turn Cons.IH [where st = st1
        and skipped = "skipped + (skippedCount st1 - skippedCount st)"
        and failed = "failed @ drop (length (failures st)) (failures st1)"
        and processed = "processed + (encryptedCount st1 - encryptedCount st)"]
    show ?thesis
      by simp
  qed
qed

lemma decryptFolderFile_grows:
  assumes "decryptFolderFile ops cwd inputDir outputDir mode policy verify f st = Some st'"
  shows "skippedCount st \<le> skippedCount st' \<and> decryptedCount st \<le> decryptedCount st' \<and>
         (\<exists>fs. failures st' = failures st @ fs) \<and>
         (\<exists>us. signatureFailures st' = signatureFailures st @ us)"
  using assms
  by (auto simp: decryptFolderFile_def recordFailure_def Let_def
      split: prod.splits option.splits sum.splits if_splits)

lemma decryptFolderLoop_grows:
  "decryptFolderLoop ops cwd inputDir outputDir mode policy verify files st = Some st' \<Longrightarrow>
   skippedCount st \<le> skippedCount st' \<and> decryptedCount st \<le> decryptedCount st' \<and>
   (\<exists>fs. failures st' = failures st @ fs) \<and>
   (\<exists>us. signatureFailures st' = signatureFailures st @ us)"
proof (induction files arbitrary: st)
  case Nil
  then show ?case by simp
next
  case (Cons f files)
  from Cons.prems obtain st1 where
    one: "decryptFolderFile ops cwd inputDir outputDir mode policy verify f st = Some st1"
    and rest: "decryptFolderLoop ops cwd inputDir outputDir mode policy verify files st1 = Some st'"
    by (auto split: option.splits)
  from decryptFolderFile_grows [OF one] Cons.IH [OF rest] show ?case
    by auto
qed

lemma decryptFolderLoop_reads_world_only:
  "decryptFolderLoop ops cwd inputDir outputDir mode policy verify files
     (st\<lparr>skippedCount := skipped, failures := failed, decryptedCount := processed,
         signatureFailures := unverified\<rparr>) =
   map_option
     (\<lambda>st'. st'\<lparr>skippedCount := skipped + (skippedCount st' - skippedCount st),
                 failures := failed @ drop (length (failures st)) (failures st'),
                 decryptedCount := processed + (decryptedCount st' - decryptedCount st),
                 signatureFailures := unverified @
                   drop (length (signatureFailures st)) (signatureFailures st')\<rparr>)
     (decryptFolderLoop ops cwd inputDir outputDir mode policy verify files st)"
proof (induction files arbitrary: st skipped failed processed unverified)
  case Nil
  then show ?case by simp
next
  case (Cons f files)
  have turn: "decryptFolderFile ops cwd inputDir outputDir mode policy verify f
     (st\<lparr>skippedCount := skipped, failures := failed, decryptedCount := processed,
         signatureFailures := unverified\<rparr>) =
     map_option
       (\<lambda>st'. st'\<lparr>skippedCount := skipped + (skippedCount st' - skippedCount st),
                   failures := failed @ drop (length (failures st)) (failures st'),
                   decryptedCount := processed + (decryptedCount st' - decryptedCount st),
                   signatureFailures := unverified @
                     drop (length (signatureFailures st)) (signatureFailures st')\<rparr>)
       (decryptFolderFile ops cwd inputDir outputDir mode policy verify f st)"
    by (auto simp: decryptFolderFile_def recordFailure_def Let_def
        split: prod.splits option.splits sum.splits)
  show ?case
  proof (cases "decryptFolderFile ops cwd inputDir outputDir mode policy verify f st")
    case None
    with turn show ?thesis
      by simp
  next
    case (Some st1)
    from decryptFolderFile_grows [OF Some] obtain fs1 us1 where
      g1: "skippedCount st \<le> skippedCount st1" "decryptedCount st \<le> decryptedCount st1"
        "failures st1 = failures st @ fs1" "signatureFailures st1 = signatureFailures st @ us1"
      by blast
    have "map_option
       (\<lambda>st'. st'\<lparr>skippedCount := skipped + (skippedCount st1 - skippedCount st) +
                     (skippedCount st' - skippedCount st1),
                   failures := (failed @ drop (length (failures st)) (failures st1)) @
                     drop (length (failures st1)) (failures st'),
                   decryptedCount := processed + (decryptedCount st1 - decryptedCount st) +
                     (decryptedCount st' - decryptedCount st1),
                   signatureFailures :=
                     (unverified @ drop (length (signatureFailures st)) (signatureFailures st1)) @
                     drop (length (signatureFailures st1)) (signatureFailures st')\<rparr>)
       (decryptFolderLoop ops cwd inputDir outputDir mode policy verify files st1) =
     map_option
       (\<lambda>st'. st'\<lparr>skippedCount := skipped + (skippedCount st' - skippedCount st),
                   failures := failed @ drop (length (failures st)) (failures st'),
                   decryptedCount := processed + (decryptedCount st' - decryptedCount st),
                   signatureFailures := unverified @
                     drop (length (signatureFailures st)) (signatureFailures st')\<rparr>)
       (decryptFolderLoop ops cwd inputDir outputDir mode policy verify files st1)"
    proof (rule option.map_cong [OF refl])
      fix st'
      assume "st' \<in> set_option
        (decryptFolderLoop ops cwd inputDir outputDir mode policy verify files st1)"
      then have "decryptFolderLoop ops cwd inputDir outputDir mode policy verify files st1 = Some st'"
        by simp
      from decryptFolderLoop_grows [OF this] obtain fs us where
        "skippedCount st1 \<le> skippedCount st'" "decryptedCount st1 \<le> decryptedCount st'"
        "failures st' = failures st1 @ fs" "signatureFailures st' = signatureFailures st1 @ us"
        by blast
      with g1 show "st'\<lparr>skippedCount := skipped + (skippedCount st1 - skippedCount st) +
                     (skippedCount st' - skippedCount st1),
                   failures := (failed @ drop (length (failures st)) (failures st1)) @
                     drop (length (failures st1)) (failures st'),
                   decryptedCount := processed + (decryptedCount st1 - decryptedCount st) +
                     (decryptedCount st' - decryptedCount st1),
                   signatureFailures :=
                     (unverified @ drop (length (signatureFailures st)) (signatureFailures st1)) @
                     drop (length (signatureFailures st1)) (signatureFailures st')\<rparr> =
          st'\<lparr>skippedCount := skipped + (skippedCount st' - skippedCount st),
                   failures := failed @ drop (length (failures st)) (failures st'),
                   decryptedCount := processed + (decryptedCount st' - decryptedCount st),
                   signatureFailures := unverified @
                     drop (length (signatureFailures st)) (signatureFailures st')\<rparr>"
        by simp
    qed
    with Some turn Cons.IH [where st = st1
        and skipped = "skipped + (skippedCount st1 - skippedCount st)"
        and failed = "failed @ drop (length (failures st)) (failures st1)"
        and processed = "processed + (decryptedCount st1 - decryptedCount st)"
        and unverified = "unverified @ drop (length (signatureFailures st)) (signatureFailures st1)"]
    show ?thesis
      by simp
  qed
qed

text \<open>
  C2, as stated, fails in its clause that the failure of a file alters the outcome of no
  other file. Under the policy skip, \<open>/in/a.pgp\<close> and \<open>/in/a.gpg\<close> both have the output
  path \<open>/out/a\<close>. In a run where the first is decrypted, the second finds that output and is
  skipped; in the run that differs only in that the engine fails on the first, nothing is
  written for it, and the second is decrypted. Both runs are given whole, and then the turn
  of the second file in each of them.
\<close>

theorem file_failure_alters_colliding_file:
  "decryptFolderBatch (listEnv [] []) ''/cwd'' ''/in'' ''/out'' Auto Skip True
     [''/in/a.pgp'', ''/in/a.gpg''] [] =
   Some \<lparr>skippedCount = 1, failures = [], world = [''/out/a''], decryptedCount = 1,
          signatureFailures = []\<rparr> \<and>
   decryptFolderBatch (listEnv [''/in/a.pgp''] []) ''/cwd'' ''/in'' ''/out'' Auto Skip True
     [''/in/a.pgp'', ''/in/a.gpg''] [] =
   Some \<lparr>skippedCount = 0, failures = [(''/in/a.pgp'', ''simulated engine failure'')],
          world = [''/out/a''], decryptedCount = 1, signatureFailures = []\<rparr> \<and>
   decryptFolderFile (listEnv [] []) ''/cwd'' ''/in'' ''/out'' Auto Skip True ''/in/a.gpg''
     \<lparr>skippedCount = 0, failures = [], world = [''/out/a''], decryptedCount = 1,
      signatureFailures = []\<rparr> =
   Some \<lparr>skippedCount = 1, failures = [], world = [''/out/a''], decryptedCount = 1,
          signatureFailures = []\<rparr> \<and>
   decryptFolderFile (listEnv [''/in/a.pgp''] []) ''/cwd'' ''/in'' ''/out'' Auto Skip True ''/in/a.gpg''
     \<lparr>skippedCount = 0, failures = [(''/in/a.pgp'', ''simulated engine failure'')], world = [],
      decryptedCount = 0, signatureFailures = []\<rparr> =
   Some \<lparr>skippedCount = 0, failures = [(''/in/a.pgp'', ''simulated engine failure'')],
          world = [''/out/a''], decryptedCount = 1, signatureFailures = []\<rparr>"
  by code_simp

text \<open>
  C2, amended. In both loops, when a task proceeds to its transform and the transform or the
  write of its result fails with an error, the turn leaves the counters as they were,
  appends the pair of the input path and the error's message to the failures, and the loop
  goes on with the next task from there: no failure of a file halts the batch. Whenever a
  loop has ended, every task has been visited (the counters account for all of them) and
  the failures it added are tasks of the list, in the order of the list. A failure reaches
  the files after it through the file system only: on any later files the loop does the
  same thing whatever the counters and the failures of the state are, so that the outcome
  of a later file changes only where it finds the world different, as a file does that has
  the output path of the failed one.
\<close>

theorem file_failure_is_recorded_and_batch_continues:
  "(proceeds ops policy (encryptOutputPath cwd inputDir outputDir fmt f) (world est) = Some w1 \<longrightarrow>
    transformOrWriteFailure (encryptFile ops f fmt w1) ops
      (encryptOutputPath cwd inputDir outputDir fmt f) fmt w1 = Some (e, w2) \<longrightarrow>
    encryptFolderLoop ops cwd inputDir outputDir fmt policy (f # rest) est =
      encryptFolderLoop ops cwd inputDir outputDir fmt policy rest
        (est\<lparr>failures := failures est @ [(f, errorMessage e)], world := w2\<rparr>)) \<and>
   (proceeds ops policy (decryptOutputPath cwd inputDir outputDir f) (world dst) = Some w1 \<longrightarrow>
    transformOrWriteFailure
      (map_sum id fst (decryptFile ops f (resolveInputFormat f mode) verify w1)) ops
      (decryptOutputPath cwd inputDir outputDir f) Binary w1 = Some (e, w2) \<longrightarrow>
    decryptFolderLoop ops cwd inputDir outputDir mode policy verify (f # rest) dst =
      decryptFolderLoop ops cwd inputDir outputDir mode policy verify rest
        (dst\<lparr>failures := failures dst @ [(f, errorMessage e)], world := w2\<rparr>)) \<and>
   (encryptFolderLoop ops cwd inputDir outputDir fmt policy files est = Some est' \<longrightarrow>
    accounted est' (encryptedCount est') = accounted est (encryptedCount est) + length files \<and>
    (\<exists>fs. failures est' = failures est @ fs \<and> subseq (map fst fs) files)) \<and>
   (decryptFolderLoop ops cwd inputDir outputDir mode policy verify files dst = Some dst' \<longrightarrow>
    accounted dst' (decryptedCount dst') = accounted dst (decryptedCount dst) + length files \<and>
    (\<exists>fs. failures dst' = failures dst @ fs \<and> subseq (map fst fs) files)) \<and>
   encryptFolderLoop ops cwd inputDir outputDir fmt policy later
     (est\<lparr>skippedCount := skipped, failures := failed, encryptedCount := processed\<rparr>) =
     map_option
       (\<lambda>st'. st'\<lparr>skippedCount := skipped + (skippedCount st' - skippedCount est),
                   failures := failed @ drop (length (failures est)) (failures st'),
                   encryptedCount := processed + (encryptedCount st' - encryptedCount est)\<rparr>)
       (encryptFolderLoop ops cwd inputDir outputDir fmt policy later est) \<and>
   decryptFolderLoop ops cwd inputDir outputDir mode policy verify later
     (dst\<lparr>skippedCount := skipped, failures := failed, decryptedCount := processed,
          signatureFailures := unverified\<rparr>) =
     map_option
       (\<lambda>st'. st'\<lparr>skippedCount := skipped + (skippedCount st' - skippedCount dst),
                   failures := failed @ drop (length (failures dst)) (failures st'),
                   decryptedCount := processed + (decryptedCount st' - decryptedCount dst),
                   signatureFailures := unverified @
                     drop (length (signatureFailures dst)) (signatureFailures st')\<rparr>)
       (decryptFolderLoop ops cwd inputDir outputDir mode policy verify later dst)"
proof -
  note enc = encryptFolderLoop_reads_world_only
    [where files = later and st = est and skipped = skipped and failed = failed
      and processed = processed and ops = ops and cwd = cwd and inputDir = inputDir
      and outputDir = outputDir and fmt = fmt and policy = policy]
  note dec = decryptFolderLoop_reads_world_only
    [where files = later and st = dst and skipped = skipped and failed = failed
      and processed = processed and unverified = unverified and ops = ops and cwd = cwd
      and inputDir = inputDir and outputDir = outputDir and mode = mode and policy = policy
      and verify = verify]
  show ?thesis
    using encryptFolderLoop_accounting [of ops cwd inputDir outputDir fmt policy files est est']
      decryptFolderLoop_accounting [of ops cwd inputDir outputDir mode policy verify files dst dst']
    by (simp only: enc dec) (simp add: encryptFolderFile_failure decryptFolderFile_failure)
qed

text \<open>
  Three files to decrypt, the engine failing on the second: the turn of the second file
  records the failure, and the run ends with two files decrypted, one failure, and the
  outputs of the other two files written.
\<close>

theorem file_failure_is_recorded_and_batch_continues_witness:
  "proceeds (listEnv [''/in/b.pgp''] []) Overwrite
     (decryptOutputPath ''/cwd'' ''/in'' ''/out'' ''/in/b.pgp'') [''/out/a''] = Some [''/out/a''] \<and>
   transformOrWriteFailure
     (map_sum id fst (decryptFile (listEnv [''/in/b.pgp''] []) ''/in/b.pgp''
        (resolveInputFormat ''/in/b.pgp'' Auto) True [''/out/a'']))
     (listEnv [''/in/b.pgp''] []) (decryptOutputPath ''/cwd'' ''/in'' ''/out'' ''/in/b.pgp'')
     Binary [''/out/a''] = Some (Error ''simulated engine failure'', [''/out/a'']) \<and>
   decryptFolderLoop (listEnv [''/in/b.pgp''] []) ''/cwd'' ''/in'' ''/out'' Auto Overwrite True
     [''/in/b.pgp'', ''/in/sub/c.asc'']
     \<lparr>skippedCount = 0, failures = [], world = [''/out/a''], decryptedCount = 1,
      signatureFailures = []\<rparr> =
   Some \<lparr>skippedCount = 0, failures = [(''/in/b.pgp'', ''simulated engine failure'')],
          world = [''/out/sub/c'', ''/out/a''], decryptedCount = 2, signatureFailures = []\<rparr> \<and>
   decryptFolderBatch (listEnv [''/in/b.pgp''] []) ''/cwd'' ''/in'' ''/out'' Auto Overwrite True
     [''/in/a.pgp'', ''/in/b.pgp'', ''/in/sub/c.asc''] [] =
   Some \<lparr>skippedCount = 0, failures = [(''/in/b.pgp'', ''simulated engine failure'')],
          world = [''/out/sub/c'', ''/out/a''], decryptedCount = 2, signatureFailures = []\<rparr>"
proof -
  let ?ops = "listEnv [''/in/b.pgp''] [] :: string list env"
  let ?st = "\<lparr>skippedCount = 0, failures = [], world = [''/out/a''], decryptedCount = 1,
      signatureFailures = []\<rparr> :: string list decrypt_state"
  have p: "proceeds ?ops Overwrite
     (decryptOutputPath ''/cwd'' ''/in'' ''/out'' ''/in/b.pgp'') (world ?st) = Some [''/out/a'']"
    by code_simp
  have t: "transformOrWriteFailure
     (map_sum id fst (decryptFile ?ops ''/in/b.pgp''
        (resolveInputFormat ''/in/b.pgp'' Auto) True [''/out/a'']))
     ?ops (decryptOutputPath ''/cwd'' ''/in'' ''/out'' ''/in/b.pgp'')
     Binary [''/out/a''] = Some (Error ''simulated engine failure'', [''/out/a''])"
    by code_simp
  have step: "decryptFolderLoop ?ops ''/cwd'' ''/in'' ''/out'' Auto Overwrite True
       (''/in/b.pgp'' # [''/in/sub/c.asc'']) ?st =
     decryptFolderLoop ?ops ''/cwd'' ''/in'' ''/out'' Auto Overwrite True [''/in/sub/c.asc'']
       (?st\<lparr>failures := failures ?st @ [(''/in/b.pgp'', errorMessage (Error ''simulated engine failure''))],
            world := [''/out/a'']\<rparr>)"
    using file_failure_is_recorded_and_batch_continues
      [of ?ops Overwrite "''/cwd''" "''/in''" "''/out''" _ "''/in/b.pgp''" _ "[''/out/a'']"
        "Error ''simulated engine failure''" "[''/out/a'']" _ ?st Auto True "[''/in/sub/c.asc'']"]
      p t
    by blast
  have after: "decryptFolderLoop ?ops ''/cwd'' ''/in'' ''/out'' Auto Overwrite True [''/in/sub/c.asc'']
       (?st\<lparr>failures := failures ?st @ [(''/in/b.pgp'', errorMessage (Error ''simulated engine failure''))],
            world := [''/out/a'']\<rparr>) =
     Some \<lparr>skippedCount = 0, failures = [(''/in/b.pgp'', ''simulated engine failure'')],
          world = [''/out/sub/c'', ''/out/a''], decryptedCount = 2, signatureFailures = []\<rparr>"
    by code_simp
  have whole: "decryptFolderBatch ?ops ''/cwd'' ''/in'' ''/out'' Auto Overwrite True
     [''/in/a.pgp'', ''/in/b.pgp'', ''/in/sub/c.asc''] [] =
   Some \<lparr>skippedCount = 0, failures = [(''/in/b.pgp'', ''simulated engine failure'')],
          world = [''/out/sub/c'', ''/out/a''], decryptedCount = 2, signatureFailures = []\<rparr>"
    by code_simp
  from p t step after whole show ?thesis
    by simp
qed

section \<open>Accounting\<close>

text \<open>
  C3. At the end of a run of either loop, under every collision policy, processed + skipped
  + failed is the number of files of the filtered list; and at every point of a run it is
  the number of tasks visited so far, so that a run cut short after some tasks would have
  counted exactly those. (In the source a collision under the policy \<open>abort\<close> cuts nothing
  short: the colliding task is counted among the failures.)
\<close>

theorem counters_account_for_every_visited_task:
  "(encryptFolderBatch ops cwd inputDir outputDir fmt policy None files w = Some (Inr est) \<longrightarrow>
      encryptedCount est + skippedCount est + length (failures est) = length files) \<and>
   (decryptFolderBatch ops cwd inputDir outputDir mode policy verify files w = Some dst \<longrightarrow>
      decryptedCount dst + skippedCount dst + length (failures dst) = length files) \<and>
   (encryptFolderLoop ops cwd inputDir outputDir fmt policy (visited @ remaining) est0 = Some est1 \<longrightarrow>
      (\<exists>est'. encryptFolderLoop ops cwd inputDir outputDir fmt policy visited est0 = Some est' \<and>
         encryptedCount est' + skippedCount est' + length (failures est') =
           encryptedCount est0 + skippedCount est0 + length (failures est0) + length visited)) \<and>
   (decryptFolderLoop ops cwd inputDir outputDir mode policy verify (visited @ remaining) dst0 = Some dst1 \<longrightarrow>
      (\<exists>dst'. decryptFolderLoop ops cwd inputDir outputDir mode policy verify visited dst0 = Some dst' \<and>
         decryptedCount dst' + skippedCount dst' + length (failures dst') =
           decryptedCount dst0 + skippedCount dst0 + length (failures dst0) + length visited))"
proof (intro conjI impI)
  assume "encryptFolderBatch ops cwd inputDir outputDir fmt policy None files w = Some (Inr est)"
  then have "encryptFolderLoop ops cwd inputDir outputDir fmt policy files
      \<lparr>skippedCount = 0, failures = [], world = w, encryptedCount = 0\<rparr> = Some est"
    by (auto simp: encryptFolderBatch_def)
  from encryptFolderLoop_accounting [OF this]
  show "encryptedCount est + skippedCount est + length (failures est) = length files"
    by (simp add: accounted_def)
next
  assume "decryptFolderBatch ops cwd inputDir outputDir mode policy verify files w = Some dst"
  then have "decryptFolderLoop ops cwd inputDir outputDir mode policy verify files
      \<lparr>skippedCount = 0, failures = [], world = w, decryptedCount = 0, signatureFailures = []\<rparr> =
      Some dst"
    by (simp add: decryptFolderBatch_def)
  from decryptFolderLoop_accounting [OF this]
  show "decryptedCount dst + skippedCount dst + length (failures dst) = length files"
    by (simp add: accounted_def)
next
  assume "encryptFolderLoop ops cwd inputDir outputDir fmt policy (visited @ remaining) est0 = Some est1"
  then obtain est' where
    v: "encryptFolderLoop ops cwd inputDir outputDir fmt policy visited est0 = Some est'"
    by (auto simp: encryptFolderLoop_append split: Option.bind_splits)
  from encryptFolderLoop_accounting [OF v] v
  show "\<exists>est'. encryptFolderLoop ops cwd inputDir outputDir fmt policy visited est0 = Some est' \<and>
         encryptedCount est' + skippedCount est' + length (failures est') =
           encryptedCount est0 + skippedCount est0 + length (failures est0) + length visited"
    by (simp add: accounted_def)
next
  assume "decryptFolderLoop ops cwd inputDir outputDir mode policy verify (visited @ remaining) dst0 = Some dst1"
  then obtain dst' where
    v: "decryptFolderLoop ops cwd inputDir outputDir mode policy verify visited dst0 = Some dst'"
    by (auto simp: decryptFolderLoop_append split: Option.bind_splits)
  from decryptFolderLoop_accounting [OF v] v
  show "\<exists>dst'. decryptFolderLoop ops cwd inputDir outputDir mode policy verify visited dst0 = Some dst' \<and>
         decryptedCount dst' + skippedCount dst' + length (failures dst') =
           decryptedCount dst0 + skippedCount dst0 + length (failures dst0) + length visited"
    by (simp add: accounted_def)
qed

text \<open>
  Three files to encrypt under the policy \<open>skip\<close>, the output of the second one already
  there, the engine failing on the third: one encrypted, one skipped, one failed.
\<close>

theorem counters_account_for_every_visited_task_witness:
  "encryptFolderBatch (listEnv [''/in/c.txt''] []) ''/cwd'' ''/in'' ''/out'' Binary Skip None
     [''/in/a.txt'', ''/in/sub/b.txt'', ''/in/c.txt''] [''/out/sub/b.txt.pgp''] =
   Some (Inr \<lparr>skippedCount = 1, failures = [(''/in/c.txt'', ''simulated engine failure'')],
          world = [''/out/a.txt.pgp'', ''/out/sub/b.txt.pgp''], encryptedCount = 1\<rparr>) \<and>
   (1::nat) + 1 + length [(''/in/c.txt'', ''simulated engine failure'')] =
     length [''/in/a.txt'', ''/in/sub/b.txt'', ''/in/c.txt'']"
proof -
  have run: "encryptFolderBatch (listEnv [''/in/c.txt''] []) ''/cwd'' ''/in'' ''/out'' Binary Skip None
     [''/in/a.txt'', ''/in/sub/b.txt'', ''/in/c.txt''] [''/out/sub/b.txt.pgp''] =
   Some (Inr \<lparr>skippedCount = 1, failures = [(''/in/c.txt'', ''simulated engine failure'')],
          world = [''/out/a.txt.pgp'', ''/out/sub/b.txt.pgp''], encryptedCount = 1\<rparr>)"
    by code_simp
  from counters_account_for_every_visited_task
    [of "listEnv [''/in/c.txt''] []" "''/cwd''" "''/in''" "''/out''" Binary Skip
      "[''/in/a.txt'', ''/in/sub/b.txt'', ''/in/c.txt'']" "[''/out/sub/b.txt.pgp'']"
      "\<lparr>skippedCount = 1, failures = [(''/in/c.txt'', ''simulated engine failure'')],
          world = [''/out/a.txt.pgp'', ''/out/sub/b.txt.pgp''], encryptedCount = 1\<rparr>"] run
  show ?thesis
    by simp
qed

section \<open>Signature failures\<close>

lemma withoutVerification_fields:
  "mkdir (withoutVerification ops) = mkdir ops"
  "exists (withoutVerification ops) = exists ops"
  "writeFile (withoutVerification ops) = writeFile ops"
  "openWriter (withoutVerification ops) = openWriter ops"
  "writerWrite (withoutVerification ops) = writerWrite ops"
  "writerEnd (withoutVerification ops) = writerEnd ops"
  by (simp_all add: withoutVerification_def)

lemma writeOutputToFile_withoutVerification:
  "writeOutputToFile (withoutVerification ops) = writeOutputToFile ops"
proof (intro ext)
  fix data outputPath fmt w
  show "writeOutputToFile (withoutVerification ops) data outputPath fmt w =
      writeOutputToFile ops data outputPath fmt w"
    unfolding writeOutputToFile_def withoutVerification_fields by (rule refl)
qed

lemma decryptFolderFile_withoutVerification:
  assumes "outcomeApartFromSignatures st = outcomeApartFromSignatures st'"
  shows "map_option outcomeApartFromSignatures
           (decryptFolderFile ops cwd inputDir outputDir mode policy verify f st) =
         map_option outcomeApartFromSignatures
           (decryptFolderFile (withoutVerification ops) cwd inputDir outputDir mode policy verify f st')"
proof -
  have fields: "mkdir (withoutVerification ops) = mkdir ops"
    "exists (withoutVerification ops) = exists ops"
    "decryptFile (withoutVerification ops) f fmt verify w =
       map_sum id (\<lambda>result. (fst result, None)) (decryptFile ops f fmt verify w)" for fmt w
    by (simp_all add: withoutVerification_def)
  from assms have same: "decryptedCount st = decryptedCount st'" "skippedCount st = skippedCount st'"
    "failures st = failures st'" "world st = world st'"
    by (simp_all add: outcomeApartFromSignatures_def)
  show ?thesis
    unfolding decryptFolderFile_def writeOutputToFile_withoutVerification fields same Let_def
    by (cases "decryptFile ops f (resolveInputFormat f mode) verify
          (snd (mkdir ops (dirname (decryptOutputPath cwd inputDir outputDir f)) (world st')))")
      (auto simp: outcomeApartFromSignatures_def recordFailure_def same
        split: prod.splits option.splits)
qed

lemma decryptFolderLoop_withoutVerification:
  "outcomeApartFromSignatures st = outcomeApartFromSignatures st' \<Longrightarrow>
   map_option outcomeApartFromSignatures
     (decryptFolderLoop ops cwd inputDir outputDir mode policy verify files st) =
   map_option outcomeApartFromSignatures
     (decryptFolderLoop (withoutVerification ops) cwd inputDir outputDir mode policy verify files st')"
proof (induction files arbitrary: st st')
  case Nil
  then show ?case by simp
next
  case (Cons f files)
  from decryptFolderFile_withoutVerification [OF Cons.prems, of ops cwd inputDir outputDir mode policy verify f]
  have one: "map_option outcomeApartFromSignatures
           (decryptFolderFile ops cwd inputDir outputDir mode policy verify f st) =
         map_option outcomeApartFromSignatures
           (decryptFolderFile (withoutVerification ops) cwd inputDir outputDir mode policy verify f st')" .
  show ?case
  proof (cases "decryptFolderFile ops cwd inputDir outputDir mode policy verify f st")
    case None
    with one show ?thesis by simp
  next
    case (Some st1)
    with one obtain st1' where
      s': "decryptFolderFile (withoutVerification ops) cwd inputDir outputDir mode policy verify f st' = Some st1'"
      and eq: "outcomeApartFromSignatures st1 = outcomeApartFromSignatures st1'"
      by (cases "decryptFolderFile (withoutVerification ops) cwd inputDir outputDir mode policy verify f st'")
        auto
    from Cons.IH [OF eq] Some s' show ?thesis
      by simp
  qed
qed

lemma decryptFolderFile_signature_failure:
  assumes "proceeds ops policy (decryptOutputPath cwd inputDir outputDir f) (world st) = Some w1"
    and "decryptFile ops f (resolveInputFormat f mode) True w1 = Inr (resultData, Some False)"
    and "writeOutputToFile ops resultData (decryptOutputPath cwd inputDir outputDir f) Binary w1 =
           Some (None, w2, tr)"
  shows "decryptFolderFile ops cwd inputDir outputDir mode policy True f st =
           Some (st\<lparr>world := w2, decryptedCount := decryptedCount st + 1,
                    signatureFailures := signatureFailures st @ [f]\<rparr>)"
  using assms
  by (auto simp: decryptFolderFile_def proceeds_def Let_def policy_not_Overwrite
      split: prod.splits option.splits if_splits)

text \<open>
  C10. In a folder decryption that verifies signatures, a file that decrypts and is written
  while the engine reports \<open>verified = false\<close> is counted as decrypted and its path goes to
  the signature failures; the failures are left as they were, and the loop goes on. More:
  what the engine reports about signatures changes nothing of a run but the list of
  signature failures: the counters, the failures, the files written and whether the run
  ends are those of the run with an engine that reports nothing.
\<close>

theorem signature_failure_is_not_a_file_failure:
  "(proceeds ops policy (decryptOutputPath cwd inputDir outputDir f) (world st) = Some w1 \<longrightarrow>
    decryptFile ops f (resolveInputFormat f mode) True w1 = Inr (resultData, Some False) \<longrightarrow>
    writeOutputToFile ops resultData (decryptOutputPath cwd inputDir outputDir f) Binary w1 =
      Some (None, w2, tr) \<longrightarrow>
    decryptFolderLoop ops cwd inputDir outputDir mode policy True (f # rest) st =
      decryptFolderLoop ops cwd inputDir outputDir mode policy True rest
        (st\<lparr>world := w2, decryptedCount := decryptedCount st + 1,
            signatureFailures := signatureFailures st @ [f]\<rparr>)) \<and>
   map_option outcomeApartFromSignatures
     (decryptFolderLoop ops cwd inputDir outputDir mode policy verify files st) =
   map_option outcomeApartFromSignatures
     (decryptFolderLoop (withoutVerification ops) cwd inputDir outputDir mode policy verify files st)"
  using decryptFolderLoop_withoutVerification [of st st ops cwd inputDir outputDir mode policy verify files]
  by (simp add: decryptFolderFile_signature_failure)

text \<open>
  Two files to decrypt with verification; the first one decrypts with a bad signature. Both
  are counted as decrypted, the first is the only signature failure, nothing has failed.
\<close>

theorem signature_failure_is_not_a_file_failure_witness:
  "proceeds (listEnv [] [''/in/a.pgp'']) Abort
     (decryptOutputPath ''/cwd'' ''/in'' ''/out'' ''/in/a.pgp'') [] = Some [] \<and>
   decryptFile (listEnv [] [''/in/a.pgp'']) ''/in/a.pgp'' (resolveInputFormat ''/in/a.pgp'' Auto)
     True [] = Inr (BytesData ''plaintext'', Some False) \<and>
   writeOutputToFile (listEnv [] [''/in/a.pgp'']) (BytesData ''plaintext'')
     (decryptOutputPath ''/cwd'' ''/in'' ''/out'' ''/in/a.pgp'') Binary [] =
     Some (None, [''/out/a''], [EvMkdir ''/out'', EvWriteFile ''/out/a'']) \<and>
   decryptFolderLoop (listEnv [] [''/in/a.pgp'']) ''/cwd'' ''/in'' ''/out'' Auto Abort True
     [''/in/a.pgp'', ''/in/b.gpg'']
     \<lparr>skippedCount = 0, failures = [], world = [], decryptedCount = 0, signatureFailures = []\<rparr> =
   Some \<lparr>skippedCount = 0, failures = [], world = [''/out/b'', ''/out/a''], decryptedCount = 2,
          signatureFailures = [''/in/a.pgp'']\<rparr>"
proof -
  let ?ops = "listEnv [] [''/in/a.pgp''] :: string list env"
  let ?st = "\<lparr>skippedCount = 0, failures = [], world = [], decryptedCount = 0,
      signatureFailures = []\<rparr> :: string list decrypt_state"
  have p: "proceeds ?ops Abort (decryptOutputPath ''/cwd'' ''/in'' ''/out'' ''/in/a.pgp'') (world ?st) =
      Some []"
    by code_simp
  have d: "decryptFile ?ops ''/in/a.pgp'' (resolveInputFormat ''/in/a.pgp'' Auto) True [] =
      Inr (BytesData ''plaintext'', Some False)"
    by (simp add: listEnv_def)
  have w: "writeOutputToFile ?ops (BytesData ''plaintext'')
     (decryptOutputPath ''/cwd'' ''/in'' ''/out'' ''/in/a.pgp'') Binary [] =
     Some (None, [''/out/a''], [EvMkdir ''/out'', EvWriteFile ''/out/a''])"
    by code_simp
  have step: "decryptFolderLoop ?ops ''/cwd'' ''/in'' ''/out'' Auto Abort True
       (''/in/a.pgp'' # [''/in/b.gpg'']) ?st =
     decryptFolderLoop ?ops ''/cwd'' ''/in'' ''/out'' Auto Abort True [''/in/b.gpg'']
       (?st\<lparr>world := [''/out/a''], decryptedCount := decryptedCount ?st + 1,
            signatureFailures := signatureFailures ?st @ [''/in/a.pgp'']\<rparr>)"
    using signature_failure_is_not_a_file_failure
      [of ?ops Abort "''/cwd''" "''/in''" "''/out''" "''/in/a.pgp''" ?st "[]" Auto
        "BytesData ''plaintext''" "[''/out/a'']" "[EvMkdir ''/out'', EvWriteFile ''/out/a'']"
        "[''/in/b.gpg'']"]
      p d w
    by blast
  have after: "decryptFolderLoop ?ops ''/cwd'' ''/in'' ''/out'' Auto Abort True [''/in/b.gpg'']
       (?st\<lparr>world := [''/out/a''], decryptedCount := decryptedCount ?st + 1,
            signatureFailures := signatureFailures ?st @ [''/in/a.pgp'']\<rparr>) =
     Some \<lparr>skippedCount = 0, failures = [], world = [''/out/b'', ''/out/a''], decryptedCount = 2,
          signatureFailures = [''/in/a.pgp'']\<rparr>"
    by code_simp
  from p d w step after show ?thesis
    by simp
qed

section \<open>A collision under the policy abort\<close>

text \<open>
  What one turn does with a collision under the policy \<open>abort\<close>, in both loops: the error
  thrown for it is caught by the turn's own \<open>catch\<close>, which records it as the failure of
  this file; the loop then goes on.
\<close>

lemma encryptFolderLoop_abort_collision:
  assumes "mkdir ops (dirname (encryptOutputPath cwd inputDir outputDir fmt f)) (world st) = (None, w1)"
    and "exists ops (encryptOutputPath cwd inputDir outputDir fmt f) w1"
  shows "encryptFolderLoop ops cwd inputDir outputDir fmt Abort (f # rest) st =
           encryptFolderLoop ops cwd inputDir outputDir fmt Abort rest
             (st\<lparr>failures := failures st @ [(f, ''Output file exists; aborting batch.'')],
                 world := w1\<rparr>)"
  using assms by (simp add: encryptFolderFile_def recordFailure_def errorMessage_def Let_def)

lemma decryptFolderLoop_abort_collision:
  assumes "mkdir ops (dirname (decryptOutputPath cwd inputDir outputDir f)) (world st) = (None, w1)"
    and "exists ops (decryptOutputPath cwd inputDir outputDir f) w1"
  shows "decryptFolderLoop ops cwd inputDir outputDir mode Abort verify (f # rest) st =
           decryptFolderLoop ops cwd inputDir outputDir mode Abort verify rest
             (st\<lparr>failures := failures st @ [(f, ''Output file exists; aborting batch.'')],
                 world := w1\<rparr>)"
  using assms by (simp add: decryptFolderFile_def recordFailure_def errorMessage_def Let_def)

text \<open>
  C1, on the code. Four files to encrypt under the policy \<open>abort\<close>, the output of the third
  already there (scenario D of the spec, with one file after the collision): the run does
  not stop at the third file. It records a failure for it, goes on to encrypt the fourth,
  and ends with three files encrypted. The folder decryption does the same.
\<close>

theorem abort_collision_does_not_end_the_batch:
  "encryptFolderBatch (listEnv [] []) ''/cwd'' ''/in'' ''/out'' Armored Abort None
     [''/in/a.txt'', ''/in/b.txt'', ''/in/sub/c.txt'', ''/in/d.txt''] [''/out/sub/c.txt.asc''] =
   Some (Inr \<lparr>skippedCount = 0,
          failures = [(''/in/sub/c.txt'', ''Output file exists; aborting batch.'')],
          world = [''/out/d.txt.asc'', ''/out/b.txt.asc'', ''/out/a.txt.asc'', ''/out/sub/c.txt.asc''],
          encryptedCount = 3\<rparr>) \<and>
   decryptFolderBatch (listEnv [] []) ''/cwd'' ''/in'' ''/out'' Auto Abort False
     [''/in/a.pgp'', ''/in/b.pgp'', ''/in/sub/c.asc'', ''/in/d.gpg''] [''/out/sub/c''] =
   Some \<lparr>skippedCount = 0,
          failures = [(''/in/sub/c.asc'', ''Output file exists; aborting batch.'')],
          world = [''/out/d'', ''/out/b'', ''/out/a'', ''/out/sub/c''],
          decryptedCount = 3, signatureFailures = []\<rparr>"
  by code_simp

section \<open>Canonical paths and the walk\<close>

lemma split_nonempty: "split c s \<noteq> []"
  by (induction s) (auto split: list.splits)

lemma split_no_sep: "t \<in> set (split c s) \<Longrightarrow> c \<notin> set t"
  by (induction s arbitrary: t) (auto split: list.splits if_splits)

lemma split_without_sep: "c \<notin> set s \<Longrightarrow> split c s = [s]"
  by (induction s) auto

lemma split_append_sep: "c \<notin> set s \<Longrightarrow> split c (s @ c # rest) = s # split c rest"
  by (induction s) (auto simp: split_nonempty split: list.splits)

lemma split_joinWith:
  "segs \<noteq> [] \<Longrightarrow> list_all (\<lambda>s. c \<notin> set s) segs \<Longrightarrow> split c (joinWith [c] segs) = segs"
proof (induction "[c]" segs rule: joinWith.induct)
  case 1
  then show ?case by simp
next
  case (2 x)
  then show ?case by (simp add: split_without_sep)
next
  case (3 x y ys)
  then show ?case by (simp add: split_append_sep)
qed

lemma joinWith_append:
  "xs \<noteq> [] \<Longrightarrow> ys \<noteq> [] \<Longrightarrow> joinWith s (xs @ ys) = joinWith s xs @ s @ joinWith s ys"
  by (induction s xs rule: joinWith.induct) (auto simp: neq_Nil_conv)

lemma pathSegments_absolutePath:
  "list_all cleanSegment segs \<Longrightarrow> pathSegments (absolutePath segs) = segs"
proof (cases segs)
  case Nil
  then show ?thesis by (simp add: pathSegments_def absolutePath_def)
next
  case (Cons a as)
  assume clean: "list_all cleanSegment segs"
  then have "list_all (\<lambda>s. CHR ''/'' \<notin> set s) segs"
    by (simp add: list_all_iff cleanSegment_def)
  with Cons have "split CHR ''/'' (joinWith ''/'' segs) = segs"
    using split_joinWith [of segs "CHR ''/''"] by simp
  then have "split CHR ''/'' (absolutePath segs) = [] # segs"
    by (simp add: absolutePath_def)
  moreover have "filter (\<lambda>s. s \<noteq> []) segs = segs"
    using clean by (simp add: list_all_iff cleanSegment_def filter_id_conv)
  ultimately show ?thesis
    by (simp add: pathSegments_def)
qed

lemma normalizeSegments_clean:
  "list_all cleanSegment res \<Longrightarrow> list_all (\<lambda>s. CHR ''/'' \<notin> set s) segs \<Longrightarrow>
   list_all cleanSegment (normalizeSegments False res segs)"
proof (induction segs arbitrary: res)
  case Nil
  then show ?case by simp
next
  case (Cons s segs)
  have bl: "list_all cleanSegment (butlast res)"
    using Cons.prems(1) by (auto simp: list_all_iff dest: in_set_butlastD)
  have tl: "list_all (\<lambda>s. CHR ''/'' \<notin> set s) segs"
    using Cons.prems(2) by simp
  show ?case
  proof (cases "s = [] \<or> s = ''.''")
    case True
    then show ?thesis
      using Cons.IH [OF Cons.prems(1) tl] by auto
  next
    case False
    show ?thesis
    proof (cases "s = ''..''")
      case True
      then show ?thesis
        using Cons.IH [OF Cons.prems(1) tl] Cons.IH [OF bl tl] by simp
    next
      case False
      with \<open>\<not> (s = [] \<or> s = ''.'')\<close> Cons.prems have "list_all cleanSegment (res @ [s])"
        by (simp add: list_all_iff cleanSegment_def)
      from Cons.IH [OF this tl] False \<open>\<not> (s = [] \<or> s = ''.'')\<close> show ?thesis
        by simp
    qed
  qed
qed

lemma normalizeSegments_id:
  "list_all cleanSegment segs \<Longrightarrow> normalizeSegments a res segs = res @ segs"
  by (induction segs arbitrary: res) (auto simp: cleanSegment_def)

lemma resolveLoop_absolute:
  "cwd \<noteq> [] \<Longrightarrow> hd cwd = CHR ''/'' \<Longrightarrow> snd (resolveLoop (args @ [cwd]) acc)"
  by (induction args arbitrary: acc) auto

lemma resolve_normal_form:
  assumes "cwd \<noteq> []" "hd cwd = CHR ''/''"
  shows "\<exists>segs. resolve cwd args = absolutePath segs \<and> list_all cleanSegment segs"
proof -
  obtain rp ra where rl: "resolveLoop (rev args @ [cwd]) [] = (rp, ra)"
    by (cases "resolveLoop (rev args @ [cwd]) []")
  with resolveLoop_absolute [OF assms, of "rev args" "[]"] have ra by simp
  have "list_all (\<lambda>s. CHR ''/'' \<notin> set s) (split CHR ''/'' rp)"
    by (simp add: list_all_iff split_no_sep)
  then have "list_all cleanSegment (normalizeSegments False [] (split CHR ''/'' rp))"
    by (intro normalizeSegments_clean) simp_all
  with rl \<open>ra\<close> show ?thesis
    by (intro exI [of _ "normalizeSegments False [] (split CHR ''/'' rp)"])
      (simp add: resolve_def normalizeString_def absolutePath_def)
qed

lemma resolve_absolutePath:
  assumes "list_all cleanSegment segs"
  shows "resolve cwd [absolutePath segs] = absolutePath segs"
proof (cases segs)
  case Nil
  then show ?thesis
    by (simp add: resolve_def normalizeString_def absolutePath_def)
next
  case (Cons a as)
  have ns: "list_all (\<lambda>s. CHR ''/'' \<notin> set s) segs"
    using assms by (simp add: list_all_iff cleanSegment_def)
  have ne: "segs \<noteq> []"
    using Cons by simp
  have "split CHR ''/'' (joinWith ''/'' (segs @ [[]])) = segs @ [[]]"
    using ns split_joinWith [of "segs @ [[]]" "CHR ''/''"] by simp
  moreover have "joinWith ''/'' (segs @ [[]]) = joinWith ''/'' segs @ ''/''"
    using ne by (simp add: joinWith_append)
  ultimately have sp: "split CHR ''/'' (absolutePath segs @ ''/'') = [] # segs @ [[]]"
    by (simp add: absolutePath_def)
  have "normalizeSegments False res (segs @ [[]]) = res @ segs" for res
    using assms by (induction segs arbitrary: res) (auto simp: cleanSegment_def)
  then have "normalizeSegments False [] ([] # segs @ [[]]) = segs"
    by simp
  with sp show ?thesis
    by (simp add: resolve_def normalizeString_def absolutePath_def)
qed

lemma prefix_is_excluded:
  assumes "es \<noteq> []" "prefix es ps"
  shows "isExcluded (Some (absolutePath es)) (absolutePath ps)"
proof -
  from assms(2) obtain qs where ps: "ps = es @ qs"
    by (auto simp: prefix_def)
  show ?thesis
  proof (cases qs)
    case Nil
    with ps show ?thesis by (simp add: isExcluded_def)
  next
    case (Cons q qs')
    then have "joinWith ''/'' ps = joinWith ''/'' es @ ''/'' @ joinWith ''/'' qs"
      using assms(1) ps by (simp add: joinWith_append)
    then show ?thesis
      by (simp add: isExcluded_def absolutePath_def startsWith_def sep_def)
  qed
qed


lemma normalizeExclude_idem:
  assumes "cwd \<noteq> []" "hd cwd = CHR ''/''"
  shows "normalizeExclude cwd (normalizeExclude cwd x) = normalizeExclude cwd x"
proof (cases x)
  case None
  then show ?thesis by (simp add: normalizeExclude_def)
next
  case (Some e)
  show ?thesis
  proof (cases "e = []")
    case True
    with Some show ?thesis by (simp add: normalizeExclude_def)
  next
    case False
    from resolve_normal_form [OF assms, of "[e]"] obtain segs where
      r: "resolve cwd [e] = absolutePath segs" "list_all cleanSegment segs"
      by blast
    have "absolutePath segs \<noteq> []"
      by (simp add: absolutePath_def)
    with Some False r resolve_absolutePath [OF r(2), of cwd] show ?thesis
      by (simp add: normalizeExclude_def)
  qed
qed

lemma walk_yields:
  assumes cwd: "cwd \<noteq> []" "hd cwd = CHR ''/''"
  shows "(\<forall>out. listFilesRecursive cwd rootDir excludeDir nd = Inr out \<longrightarrow>
            (\<forall>p\<in>set out. \<not> isExcluded (normalizeExclude cwd excludeDir) (resolve cwd [p]) \<and>
               regularFileAt rootDir nd p))"
    and "(\<forall>out. normalizeExclude cwd ne = ne \<longrightarrow>
            listFilesLoop cwd rootDir ne entries files = Inr out \<longrightarrow>
            (\<forall>p\<in>set out. p \<in> set files \<or>
               (\<not> isExcluded ne (resolve cwd [p]) \<and>
                (\<forall>dir. set entries \<subseteq> set dir \<longrightarrow> regularFileAt rootDir (Directory dir) p))))"
  using cwd
proof (induction cwd rootDir excludeDir nd and cwd rootDir ne entries files
    rule: listFilesRecursive_listFilesLoop.induct)
  case (1 cwd rootDir excludeDir nd)
  show ?case
  proof (intro allI impI ballI)
    fix out p
    assume run: "listFilesRecursive cwd rootDir excludeDir nd = Inr out" and p: "p \<in> set out"
    from run obtain entries where rd: "readdir nd = Inr entries"
      and loop: "listFilesLoop cwd rootDir (normalizeExclude cwd excludeDir) entries [] = Inr out"
      by (auto simp: Let_def split: sum.splits)
    from rd have nd: "nd = Directory entries"
      by (auto simp: readdir_def split: node.splits)
    have fixpoint: "normalizeExclude cwd (normalizeExclude cwd excludeDir) = normalizeExclude cwd excludeDir"
      using "1.prems" by (rule normalizeExclude_idem)
    from "1.IH" [OF refl rd "1.prems"] fixpoint loop p
    show "\<not> isExcluded (normalizeExclude cwd excludeDir) (resolve cwd [p]) \<and> regularFileAt rootDir nd p"
      unfolding nd by auto
  qed
next
  case (2 cwd rootDir ne files)
  then show ?case by simp
next
  case (3 cwd rootDir ne entry entries files)
  define entryPath where "entryPath = joinPath [rootDir, fst entry]"
  define resolvedEntry where "resolvedEntry = resolve cwd [entryPath]"
  show ?case
  proof (intro allI impI ballI)
    fix out p
    assume fixpoint: "normalizeExclude cwd ne = ne"
      and run: "listFilesLoop cwd rootDir ne (entry # entries) files = Inr out"
      and p: "p \<in> set out"
    let ?goal = "p \<in> set files \<or>
       (\<not> isExcluded ne (resolve cwd [p]) \<and>
        (\<forall>dir. set (entry # entries) \<subseteq> set dir \<longrightarrow> regularFileAt rootDir (Directory dir) p))"
    show ?goal
    proof (cases "isExcluded ne resolvedEntry")
      case True
      with run have "listFilesLoop cwd rootDir ne entries files = Inr out"
        by (simp add: entryPath_def resolvedEntry_def Let_def)
      with "3.IH"(1) [OF entryPath_def resolvedEntry_def True "3.prems"] fixpoint p show ?thesis
        by auto
    next
      case notEx: False
      show ?thesis
      proof (cases "isDirectory (snd entry)")
        case True
        from run notEx True obtain sub where
          rec: "listFilesRecursive cwd entryPath ne (snd entry) = Inr sub"
          and rest: "listFilesLoop cwd rootDir ne entries (files @ sub) = Inr out"
          by (auto simp: entryPath_def resolvedEntry_def Let_def split: sum.splits)
        from "3.IH"(3) [OF entryPath_def resolvedEntry_def notEx True rec "3.prems"] fixpoint rest p
        have "p \<in> set files \<or> p \<in> set sub \<or>
          (\<not> isExcluded ne (resolve cwd [p]) \<and>
           (\<forall>dir. set entries \<subseteq> set dir \<longrightarrow> regularFileAt rootDir (Directory dir) p))"
          by auto
        moreover have "\<not> isExcluded ne (resolve cwd [p]) \<and>
           (\<forall>dir. set (entry # entries) \<subseteq> set dir \<longrightarrow> regularFileAt rootDir (Directory dir) p)"
          if "p \<in> set sub"
        proof -
          from "3.IH"(2) [OF entryPath_def resolvedEntry_def notEx True "3.prems"] rec that fixpoint
          have a: "\<not> isExcluded ne (resolve cwd [p])" and b: "regularFileAt entryPath (snd entry) p"
            by auto
          have "regularFileAt rootDir (Directory dir) p" if "set (entry # entries) \<subseteq> set dir" for dir
          proof -
            from that have "(fst entry, snd entry) \<in> set dir" by auto
            from regularFileAt.below [OF this b [unfolded entryPath_def]] show ?thesis .
          qed
          with a show ?thesis by blast
        qed
        ultimately show ?thesis by auto
      next
        case notDir: False
        show ?thesis
        proof (cases "isFile (snd entry)")
          case True
          with run notEx notDir have rest: "listFilesLoop cwd rootDir ne entries (files @ [entryPath]) = Inr out"
            by (simp add: entryPath_def resolvedEntry_def Let_def)
          from "3.IH"(4) [OF entryPath_def resolvedEntry_def notEx notDir True "3.prems"] fixpoint rest p
          have "p \<in> set files \<or> p = entryPath \<or>
            (\<not> isExcluded ne (resolve cwd [p]) \<and>
             (\<forall>dir. set entries \<subseteq> set dir \<longrightarrow> regularFileAt rootDir (Directory dir) p))"
            by auto
          moreover have "\<not> isExcluded ne (resolve cwd [entryPath]) \<and>
             (\<forall>dir. set (entry # entries) \<subseteq> set dir \<longrightarrow> regularFileAt rootDir (Directory dir) entryPath)"
          proof -
            have "regularFileAt rootDir (Directory dir) entryPath" if "set (entry # entries) \<subseteq> set dir" for dir
            proof -
              from that True have "(fst entry, RegularFile) \<in> set dir"
                by (cases entry) (auto simp: isFile_def)
              from regularFileAt.here [OF this] show ?thesis
                by (simp add: entryPath_def)
            qed
            with notEx show ?thesis
              by (simp add: resolvedEntry_def)
          qed
          ultimately show ?thesis by auto
        next
          case False
          with run notEx notDir have "listFilesLoop cwd rootDir ne entries files = Inr out"
            by (simp add: entryPath_def resolvedEntry_def Let_def)
          with "3.IH"(5) [OF entryPath_def resolvedEntry_def notEx notDir False "3.prems"] fixpoint p show ?thesis
            by auto
        qed
      qed
    qed
  qed
qed

text \<open>
  Every path the walk yields is a regular file of the tree, and for every exclude path but
  the root of the file system none is at the canonical exclude path or under it (the working
  directory being an absolute path).
\<close>

lemma listFilesRecursive_excludes:
  assumes cwd: "cwd \<noteq> []" "hd cwd = CHR ''/''"
    and ex: "excludeDir \<noteq> []" "resolve cwd [excludeDir] \<noteq> ''/''"
    and run: "listFilesRecursive cwd rootDir (Some excludeDir) nd = Inr files"
    and p: "p \<in> set files"
  shows "\<not> atOrUnder (resolve cwd [excludeDir]) (resolve cwd [p]) \<and> regularFileAt rootDir nd p"
proof -
  from walk_yields(1) [OF cwd, of rootDir "Some excludeDir" nd] run p
  have "\<not> isExcluded (normalizeExclude cwd (Some excludeDir)) (resolve cwd [p]) \<and>
      regularFileAt rootDir nd p"
    by blast
  with ex(1) have notEx: "\<not> isExcluded (Some (resolve cwd [excludeDir])) (resolve cwd [p])"
    and reg: "regularFileAt rootDir nd p"
    by (simp_all add: normalizeExclude_def)
  from resolve_normal_form [OF cwd, of "[excludeDir]"] obtain es where
    es: "resolve cwd [excludeDir] = absolutePath es" "list_all cleanSegment es"
    by blast
  from resolve_normal_form [OF cwd, of "[p]"] obtain ps where
    ps: "resolve cwd [p] = absolutePath ps" "list_all cleanSegment ps"
    by blast
  from ex(2) es(1) have "es \<noteq> []"
    by (auto simp: absolutePath_def)
  have "\<not> prefix es ps"
    using prefix_is_excluded [OF \<open>es \<noteq> []\<close>, of ps] notEx es(1) ps(1) by auto
  then have "\<not> atOrUnder (resolve cwd [excludeDir]) (resolve cwd [p])"
    by (simp add: atOrUnder_def es ps pathSegments_absolutePath)
  with reg show ?thesis
    by simp
qed

section \<open>The root of the file system as the exclude path\<close>

text \<open>
  C4, on the code. With the exclude path \<open>/\<close> every entry is under the excluded path, and the
  walk prunes none: the test is \<open>startsWith(normalizedExclude + sep)\<close>, which for the root
  is \<open>startsWith('//')\<close> and holds of no canonical path. The walk of \<open>/\<close> itself yields its
  files, where the walk of \<open>/data\<close> excluding \<open>/data\<close> yields nothing.
\<close>

theorem root_exclude_is_not_pruned:
  "listFilesRecursive ''/home/u'' ''/'' (Some ''/'')
     (Directory [(''a.txt'', RegularFile), (''out'', Directory [(''a.txt.asc'', RegularFile)])]) =
     Inr [''/a.txt'', ''/out/a.txt.asc''] \<and>
   normalizeExclude ''/home/u'' (Some ''/'') = Some ''/'' \<and>
   atOrUnder ''/'' (resolve ''/home/u'' [''/a.txt'']) \<and>
   atOrUnder ''/'' (resolve ''/home/u'' [''/out/a.txt.asc'']) \<and>
   listFilesRecursive ''/home/u'' ''/data'' (Some ''/data'')
     (Directory [(''a.txt'', RegularFile), (''out'', Directory [(''a.txt.asc'', RegularFile)])]) =
     Inr []"
  by code_simp

section \<open>Joining canonical paths\<close>

lemma joinWith_Cons_char: "joinWith s ((x # t) # ts) = x # joinWith s (t # ts)"
  by (cases ts) simp_all

lemma joinWith_split: "joinWith [c] (split c s) = s"
proof (induction s)
  case Nil
  then show ?case by simp
next
  case (Cons x xs)
  obtain t ts where sp: "split c xs = t # ts"
    using split_nonempty [of c xs] by (cases "split c xs") auto
  with Cons have rest: "joinWith [c] (t # ts) = xs"
    by simp
  show ?case
  proof (cases "x = c")
    case True
    then show ?thesis
      by (simp add: sp rest)
  next
    case False
    then show ?thesis
      by (simp add: sp joinWith_Cons_char rest)
  qed
qed






lemma joinWith_last:
  "segs \<noteq> [] \<Longrightarrow> last segs \<noteq> [] \<Longrightarrow>
   joinWith s segs \<noteq> [] \<and> last (joinWith s segs) = last (last segs)"
  by (induction s segs rule: joinWith.induct) auto

lemma joinPath_clean:
  assumes os: "list_all cleanSegment outSegs"
    and ns: "list_all cleanSegment (split CHR ''/'' name)"
  shows "joinPath [absolutePath outSegs, name] = absolutePath (outSegs @ split CHR ''/'' name)"
proof -
  define segs where "segs = split CHR ''/'' name"
  have name: "name = joinWith ''/'' segs"
    by (simp add: segs_def joinWith_split)
  have segs_ne: "segs \<noteq> []"
    by (simp add: segs_def split_nonempty)
  have clean: "list_all cleanSegment segs"
    using ns by (simp add: segs_def)
  with segs_ne have "cleanSegment (last segs)"
    by (simp add: list_all_iff)
  then have last_ne: "last segs \<noteq> []" and last_sep: "CHR ''/'' \<notin> set (last segs)"
    by (simp_all add: cleanSegment_def)
  from joinWith_last [OF segs_ne last_ne, of "''/''"] have name_ne: "name \<noteq> []"
    and last_name: "last name = last (last segs)"
    by (simp_all add: name)
  have "last (last segs) \<in> set (last segs)"
    using last_ne by (rule last_in_set)
  with last_name last_sep have no_trailing: "last name \<noteq> CHR ''/''"
    by auto
  have no_sep: "list_all (\<lambda>s. CHR ''/'' \<notin> set s) (outSegs @ segs)"
    using os clean by (auto simp: list_all_iff cleanSegment_def)
  have all: "list_all cleanSegment (outSegs @ segs)"
    using os clean by simp
  have path: "joinWith ''/'' [absolutePath outSegs, name] = absolutePath outSegs @ ''/'' @ name"
    by simp
  have norm: "normalizeSegments False [] (split CHR ''/'' (absolutePath outSegs @ ''/'' @ name)) =
      outSegs @ segs"
  proof (cases outSegs)
    case Nil
    have "split CHR ''/'' (joinWith ''/'' segs) = segs"
      using no_sep segs_ne split_joinWith [of segs "CHR ''/''"] by simp
    then have "split CHR ''/'' (absolutePath outSegs @ ''/'' @ name) = [] # [] # segs"
      by (simp add: Nil absolutePath_def name)
    then show ?thesis
      using normalizeSegments_id [OF clean, of False "[]"] Nil by simp
  next
    case (Cons a as)
    then have out_ne: "outSegs \<noteq> []"
      by simp
    have "absolutePath outSegs @ ''/'' @ name = ''/'' @ joinWith ''/'' (outSegs @ segs)"
      using joinWith_append [OF out_ne segs_ne, of "''/''"] by (simp add: absolutePath_def name)
    moreover have "split CHR ''/'' (joinWith ''/'' (outSegs @ segs)) = outSegs @ segs"
      using no_sep segs_ne split_joinWith [of "outSegs @ segs" "CHR ''/''"] by simp
    ultimately have "split CHR ''/'' (absolutePath outSegs @ ''/'' @ name) = [] # (outSegs @ segs)"
      by simp
    then show ?thesis
      using normalizeSegments_id [OF all, of False "[]"] by simp
  qed
  have joined_ne: "joinWith ''/'' (outSegs @ segs) \<noteq> []"
    using joinWith_last [of "outSegs @ segs" "''/''"] segs_ne last_ne by simp
  define path where "path = absolutePath outSegs @ ''/'' @ name"
  have path_ne: "path \<noteq> []" and hd_path: "hd path = CHR ''/''"
    by (simp_all add: path_def absolutePath_def)
  have last_path: "last path \<noteq> CHR ''/''"
    using name_ne no_trailing by (simp add: path_def)
  have norm': "normalizeString path False = joinWith ''/'' (outSegs @ segs)"
    using norm by (simp add: normalizeString_def path_def)
  have "normalizePath path = ''/'' @ joinWith ''/'' (outSegs @ segs)"
    using joined_ne by (simp add: normalizePath_def path_ne hd_path last_path norm' Let_def)
  moreover have "joinPath [absolutePath outSegs, name] = normalizePath path"
    using name_ne by (simp add: joinPath_def path_def absolutePath_def)
  ultimately show ?thesis
    by (simp add: absolutePath_def segs_def)
qed



lemma cleanNames_entry:
  "cleanNames (Directory entries) \<Longrightarrow> (name, sub) \<in> set entries \<Longrightarrow>
   cleanSegment name \<and> cleanNames sub"
  by (auto simp: list_all_iff)

lemma joinPath_name:
  assumes "list_all cleanSegment segs" "cleanSegment name"
  shows "joinPath [absolutePath segs, name] = absolutePath (segs @ [name])"
proof -
  from assms(2) have "CHR ''/'' \<notin> set name"
    by (simp add: cleanSegment_def)
  then have "split CHR ''/'' name = [name]"
    by (rule split_without_sep)
  with joinPath_clean [OF assms(1), of name] assms(2) show ?thesis
    by simp
qed

lemma regularFileAt_canonical:
  assumes "regularFileAt rootDir nd p"
  shows "list_all cleanSegment segs \<Longrightarrow> rootDir = absolutePath segs \<Longrightarrow> cleanNames nd \<Longrightarrow>
         \<exists>rel. rel \<noteq> [] \<and> list_all cleanSegment rel \<and> p = absolutePath (segs @ rel)"
  using assms
proof (induction arbitrary: segs rule: regularFileAt.induct)
  case (here name entries rootDir)
  from cleanNames_entry [OF here.prems(3) here.hyps] have "cleanSegment name"
    by simp
  with here.prems show ?case
    by (intro exI [of _ "[name]"]) (simp add: joinPath_name)
next
  case (below name sub entries rootDir p)
  from cleanNames_entry [OF below.prems(3) below.hyps(1)] have
    name: "cleanSegment name" and sub: "cleanNames sub"
    by simp_all
  have "joinPath [rootDir, name] = absolutePath (segs @ [name])"
    using below.prems name by (simp add: joinPath_name)
  moreover have "list_all cleanSegment (segs @ [name])"
    using below.prems name by simp
  ultimately obtain rel where
    "rel \<noteq> []" "list_all cleanSegment rel" "p = absolutePath ((segs @ [name]) @ rel)"
    using below.IH [of "segs @ [name]"] sub by blast
  with name show ?case
    by (intro exI [of _ "name # rel"]) simp
qed

text \<open>
  The files the walk yields from a canonical root, over a tree whose entries have the names
  a file system gives, are canonical paths under the root.
\<close>

lemma walked_files_are_canonical:
  assumes cwd: "cwd \<noteq> []" "hd cwd = CHR ''/''"
    and root: "list_all cleanSegment inSegs" and tree: "cleanNames nd"
    and run: "listFilesRecursive cwd (absolutePath inSegs) excludeDir nd = Inr files"
    and p: "p \<in> set files"
  shows "\<exists>rel. rel \<noteq> [] \<and> list_all cleanSegment rel \<and> p = absolutePath (inSegs @ rel)"
proof -
  from walk_yields(1) [OF cwd, of "absolutePath inSegs" excludeDir nd] run p
  have "regularFileAt (absolutePath inSegs) nd p"
    by blast
  from regularFileAt_canonical [OF this root refl tree] show ?thesis .
qed

section \<open>Distinct inputs, equal outputs\<close>




text \<open>
  Why the last part of the amended claim leaves out the names that strip to \<open>.\<close> or \<open>..\<close>:
  \<open>join\<close> resolves such a segment. The file \<open>..pgp\<close> of the directory \<open>a\<close> has the extension
  \<open>.pgp\<close> for the filter, its relative path \<open>a/..pgp\<close> is stripped to \<open>a/.\<close>, and its output
  path is the one of \<open>a.pgp\<close>, though the two do not strip to the same name.
\<close>

lemma stripped_dot_segment_is_resolved:
  "extname ''/in/a/..pgp'' = ''.pgp'' \<and>
   relative ''/cwd'' ''/in'' ''/in/a/..pgp'' = ''a/..pgp'' \<and>
   stripEncryptedExtension ''a/..pgp'' = ''a/.'' \<and>
   decryptOutputPath ''/cwd'' ''/in'' ''/out'' ''/in/a/..pgp'' = ''/out/a'' \<and>
   decryptOutputPath ''/cwd'' ''/in'' ''/out'' ''/in/a.pgp'' = ''/out/a'' \<and>
   \<not> stripsToSameName ''a/..pgp'' ''a.pgp''"
  by code_simp

section \<open>Runs that return, and what the walk leaves out\<close>

lemma decryptFolderLoop_returns:
  assumes "\<And>f fmt w d verified. decryptFile ops f fmt verify w = Inr (d, verified) \<Longrightarrow>
             \<exists>n. case d of StreamData s \<Rightarrow> streamEnds (reads s) n | _ \<Rightarrow> True"
  shows "decryptFolderLoop ops cwd inputDir outputDir mode policy verify files st \<noteq> None"
proof (induction files arbitrary: st)
  case Nil
  then show ?case by simp
next
  case (Cons f files)
  have "decryptFolderFile ops cwd inputDir outputDir mode policy verify f st \<noteq> None"
  proof -
    have written: False
      if "decryptFile ops f fmt verify w = Inr (d, verified)"
        "writeOutputToFile ops d outputPath Binary w = None"
      for d outputPath w fmt verified
    proof -
      from assms [OF that(1)] obtain n where
        "case d of StreamData s \<Rightarrow> streamEnds (reads s) n | _ \<Rightarrow> True" ..
      then have "writeOutputToFile ops d outputPath Binary w \<noteq> None"
        by (rule writeOutputToFile_returns)
      with that(2) show False
        by simp
    qed
    show ?thesis
      by (auto simp: decryptFolderFile_def Let_def split: prod.splits option.splits sum.splits
          dest: written)
  qed
  with Cons.IH show ?case
    by (auto split: option.splits)
qed

text \<open>
  An entry the test excludes is left out whole: the walk goes on as if it were not there,
  whatever it holds, a directory that cannot be read included.
\<close>

lemma excluded_entry_is_pruned:
  assumes "isExcluded normalizedExclude (resolve cwd [joinPath [rootDir, fst entry]])"
  shows "listFilesLoop cwd rootDir normalizedExclude (entry # entries) files =
           listFilesLoop cwd rootDir normalizedExclude entries files"
  using assms by simp

end
